theory Spec2Isabelle
  imports Complex_Main "HOL-Library.Word"
begin

unbundle bit_operations_syntax

section \<open>Data (main.c, lines 16--71)\<close>

type_synonym u8 = "8 word"
type_synonym u32 = "32 word"

text \<open>
  What C leaves undefined is an error value of the model: an \<open>int\<close> computation that
  leaves the 32-bit range, an array access outside its buffer, an integer division by
  zero, a \<open>float\<close> that does not fit the integer type it is cast to.
\<close>

datatype error = IntOverflow | OutOfBounds | DivByZero | FloatCast

definition ebind :: "error + 'a \<Rightarrow> ('a \<Rightarrow> error + 'b) \<Rightarrow> error + 'b" where
  "ebind m f = (case m of Inl e \<Rightarrow> Inl e | Inr v \<Rightarrow> f v)"

definition INT_MAX :: int where
  "INT_MAX = 2147483647"

definition INT_MIN :: int where
  "INT_MIN = - 2147483648"

definition c_int :: "int \<Rightarrow> error + int" where
  "c_int n = (if INT_MIN \<le> n \<and> n \<le> INT_MAX then Inr n else Inl IntOverflow)"

text \<open>
  A \<open>float\<close> holds a real number, an infinity or a NaN. The model keeps the value
  and no rounding: nothing below depends on which reals a \<open>float\<close> can hold.
\<close>

datatype c_float = Finite real | PosInf | NegInf | NaN

record config =
  width :: int
  height :: int
  scale :: c_float
  delay :: int
  bg_color :: u32
  fg_color :: u32
  cp_color :: u32

definition C :: config where
  "C = \<lparr>width = 500, height = 300, scale = Finite 3, delay = 20,
        bg_color = 0x000000FF, fg_color = 0xFFFFFFFF, cp_color = 0x444444FF\<rparr>"

record cursor_pixel =
  cp_x :: int
  cp_y :: int
  prev_x :: int
  prev_y :: int
  prev_state :: bool
  active :: bool

datatype state_t = RUNNING | PAUSED | QUIT

section \<open>Simulation (main.c, lines 96--183)\<close>

text \<open>
  A buffer of \<open>bool\<close> is a list, one element per byte (\<open>sizeof(bool)\<close> is 1).
  \<open>cell_index\<close> is the subscript \<open>x * C.height + y\<close> of \<open>get_cell\<close> and
  \<open>set_cell\<close>, computed in \<open>int\<close> and checked against the buffer.
\<close>

definition cell_index :: "config \<Rightarrow> bool list \<Rightarrow> int \<Rightarrow> int \<Rightarrow> error + nat" where
  "cell_index c arr x y =
     ebind (c_int (x * height c)) (\<lambda>p.
     ebind (c_int (p + y)) (\<lambda>i.
       if 0 \<le> i \<and> i < int (length arr) then Inr (nat i) else Inl OutOfBounds))"

definition get_cell :: "config \<Rightarrow> bool list \<Rightarrow> int \<Rightarrow> int \<Rightarrow> error + bool" where
  "get_cell c arr x y = ebind (cell_index c arr x y) (\<lambda>i. Inr (arr ! i))"

definition set_cell :: "config \<Rightarrow> bool list \<Rightarrow> int \<Rightarrow> int \<Rightarrow> bool \<Rightarrow> error + bool list" where
  "set_cell c arr x y val = ebind (cell_index c arr x y) (\<lambda>i. Inr (arr[i := val]))"

text \<open>
  The eight neighbour tests of \<open>is_alive\<close>, in the order of the source: the guard
  that stands before \<open>&&\<close>, and the coordinates handed to \<open>get_cell\<close> when the
  guard holds. \<open>update_grid\<close>, the only caller, passes \<open>0 \<le> x < C.width\<close> and
  \<open>0 \<le> y < C.height\<close>, for which \<open>x - 1\<close>, \<open>x + 1\<close>, \<open>C.width - 1\<close> and the
  like stay within \<open>int\<close>; the subscript inside \<open>get_cell\<close> is the one product, and
  it is checked there.
\<close>

definition neighbor_probes :: "config \<Rightarrow> int \<Rightarrow> int \<Rightarrow> (bool \<times> int \<times> int) list" where
  "neighbor_probes c x y =
     [(x > 0, x - 1, y),
      (x < width c - 1, x + 1, y),
      (y > 0, x, y - 1),
      (y < height c - 1, x, y + 1),
      (x > 0 \<and> y > 0, x - 1, y - 1),
      (x < width c - 1 \<and> y > 0, x + 1, y - 1),
      (x > 0 \<and> y < height c - 1, x - 1, y + 1),
      (x < width c - 1 \<and> y < height c - 1, x + 1, y + 1)]"

text \<open>
  One statement \<open>if (guard && get_cell(grid, a, b)) neighbors++;\<close> per probe. Beside
  the counter the model keeps the coordinates of every \<open>get_cell\<close> call made, in order.
\<close>

fun count_neighbors ::
  "config \<Rightarrow> bool list \<Rightarrow> (bool \<times> int \<times> int) list \<Rightarrow> int \<times> (int \<times> int) list
     \<Rightarrow> error + (int \<times> (int \<times> int) list)" where
  "count_neighbors c g [] acc = Inr acc"
| "count_neighbors c g ((guard, a, b) # ps) (neighbors, reads) =
     (if guard
      then ebind (get_cell c g a b) (\<lambda>v.
             count_neighbors c g ps (if v then neighbors + 1 else neighbors, reads @ [(a, b)]))
      else count_neighbors c g ps (neighbors, reads))"

definition is_alive ::
  "config \<Rightarrow> bool list \<Rightarrow> int \<Rightarrow> int \<Rightarrow> error + (bool \<times> (int \<times> int) list)" where
  "is_alive c g x y =
     ebind (count_neighbors c g (neighbor_probes c x y) (0, [])) (\<lambda>(neighbors, reads).
     ebind (get_cell c g x y) (\<lambda>a1.
       if a1 \<and> (neighbors < 2 \<or> neighbors > 3) then Inr (False, reads @ [(x, y)])
       else
     ebind (get_cell c g x y) (\<lambda>a2.
       if a2 \<and> (neighbors = 2 \<or> neighbors = 3) then Inr (True, reads @ [(x, y), (x, y)])
       else
     ebind (get_cell c g x y) (\<lambda>a3.
       if \<not> a3 \<and> neighbors = 3 then Inr (True, reads @ [(x, y), (x, y), (x, y)])
       else Inr (False, reads @ [(x, y), (x, y), (x, y)])))))"

text \<open>
  The globals \<open>grid\<close>, \<open>next_gen\<close> and \<open>grid_size\<close>: two buffers that never
  overlap (each comes from its own \<open>malloc\<close>) and the byte count handed to
  \<open>memset\<close> and \<open>memcpy\<close>.
\<close>

record buffers =
  grid :: "bool list"
  next_gen :: "bool list"
  grid_size :: nat

text \<open>
  \<open>for (int i = lo; i < n; i++) body\<close>, for a body that leaves \<open>i\<close> and \<open>n\<close>
  alone. The increment is taken only while \<open>i < n\<close>, so it stays within \<open>int\<close>.
\<close>

function for_loop :: "int \<Rightarrow> int \<Rightarrow> (int \<Rightarrow> 's \<Rightarrow> error + 's) \<Rightarrow> 's \<Rightarrow> error + 's" where
  "for_loop i n body s =
     (if i < n then ebind (body i s) (\<lambda>s'. for_loop (i + 1) n body s') else Inr s)"
  by pat_completeness auto
termination
  by (relation "measure (\<lambda>(i, n, body, s). nat (n - i))") auto

declare for_loop.simps [simp del]

definition clear_grid :: "buffers \<Rightarrow> error + buffers" where
  "clear_grid s =
     (if grid_size s \<le> length (grid s)
      then Inr (s\<lparr>grid := replicate (grid_size s) False @ drop (grid_size s) (grid s)\<rparr>)
      else Inl OutOfBounds)"

definition update_grid :: "config \<Rightarrow> buffers \<Rightarrow> error + buffers" where
  "update_grid c s =
     ebind (for_loop 0 (width c) (\<lambda>i.
              for_loop 0 (height c) (\<lambda>j t.
                ebind (is_alive c (grid t) i j) (\<lambda>(alive, reads).
                ebind (set_cell c (next_gen t) i j alive) (\<lambda>ng.
                  Inr (t\<lparr>next_gen := ng\<rparr>))))) s) (\<lambda>t.
       if grid_size t \<le> length (grid t) \<and> grid_size t \<le> length (next_gen t)
       then Inr (t\<lparr>grid := take (grid_size t) (next_gen t) @ drop (grid_size t) (grid t)\<rparr>)
       else Inl OutOfBounds)"

section \<open>SDL: rendering, events, ghost cursor (main.c, lines 227--390)\<close>

text \<open>
  SDL itself is outside the repository. The model keeps what the program asks of it:
  the renderer calls in the order they are made, and the events SDL hands out.
\<close>

datatype render_call =
    SDL_SetRenderDrawColor u8 u8 u8 u8
  | SDL_RenderClear
  | SDL_RenderDrawPoint int int
  | SDL_RenderPresent
  | SDL_Delay int

definition extract_color :: "u32 \<Rightarrow> u8 \<times> u8 \<times> u8 \<times> u8" where
  "extract_color color =
     (ucast (drop_bit 24 color AND 0xFF), ucast (drop_bit 16 color AND 0xFF),
      ucast (drop_bit 8 color AND 0xFF), ucast (drop_bit 0 color AND 0xFF))"

text \<open>
  The globals of the running program apart from \<open>C\<close>, the two \<open>static\<close> flags of
  \<open>handle_events\<close>, the renderer calls made so far, and the number of \<open>rand()\<close>
  calls made so far.
\<close>

record world =
  bufs :: buffers
  state :: state_t
  cp :: cursor_pixel
  draw_flag :: bool
  erase_flag :: bool
  bg_rgba :: "u8 \<times> u8 \<times> u8 \<times> u8"
  fg_rgba :: "u8 \<times> u8 \<times> u8 \<times> u8"
  screen :: "render_call list"
  rand_calls :: nat

definition render :: "render_call list \<Rightarrow> world \<Rightarrow> world" where
  "render calls w = w\<lparr>screen := screen w @ calls\<rparr>"

definition set_draw_color :: "u8 \<times> u8 \<times> u8 \<times> u8 \<Rightarrow> render_call" where
  "set_draw_color rgba = (case rgba of (r, g, b, a) \<Rightarrow> SDL_SetRenderDrawColor r g b a)"

definition clear_screen :: "world \<Rightarrow> world" where
  "clear_screen w = render [set_draw_color (bg_rgba w), SDL_RenderClear] w"

definition update_screen :: "config \<Rightarrow> world \<Rightarrow> error + world" where
  "update_screen c w =
     ebind (for_loop 0 (width c) (\<lambda>i.
              for_loop 0 (height c) (\<lambda>j t.
                ebind (get_cell c (grid (bufs t)) i j) (\<lambda>v.
                  Inr (if v then render [SDL_RenderDrawPoint i j] t else t))))
            (render [set_draw_color (fg_rgba w)] (clear_screen w))) (\<lambda>t.
       Inr (render [SDL_RenderPresent, SDL_Delay (delay c)] t))"

text \<open>The three renderer calls of one \<open>draw_pixel(x, y, color)\<close>.\<close>

definition pixel_calls :: "int \<Rightarrow> int \<Rightarrow> u32 \<Rightarrow> render_call list" where
  "pixel_calls x y color =
     [set_draw_color (extract_color color), SDL_RenderDrawPoint x y, SDL_RenderPresent]"

definition draw_pixel :: "int \<Rightarrow> int \<Rightarrow> u32 \<Rightarrow> world \<Rightarrow> world" where
  "draw_pixel x y color w = render (pixel_calls x y color) w"

text \<open>
  \<open>rand()\<close> is the environment's: \<open>rnd k\<close> is what its \<open>k\<close>-th call returns, a
  value from 0 to \<open>RAND_MAX\<close>.
\<close>

definition fill_grid :: "config \<Rightarrow> (nat \<Rightarrow> int) \<Rightarrow> world \<Rightarrow> error + world" where
  "fill_grid c rnd w =
     for_loop 0 (width c) (\<lambda>i.
       for_loop 0 (height c) (\<lambda>j t.
         ebind (set_cell c (grid (bufs t)) i j (rnd (rand_calls t) mod 2 \<noteq> 0)) (\<lambda>g.
           Inr (t\<lparr>bufs := (bufs t)\<lparr>grid := g\<rparr>, rand_calls := rand_calls t + 1\<rparr>)))) w"

text \<open>
  \<open>(uint32_t)C.scale\<close>: the fraction is dropped; a value whose integral part is no
  \<open>uint32_t\<close> is undefined.
\<close>

definition scale_u32 :: "config \<Rightarrow> error + u32" where
  "scale_u32 c =
     (case scale c of
        Finite r \<Rightarrow>
          (let t = (if 0 \<le> r then \<lfloor>r\<rfloor> else \<lceil>r\<rceil>)
           in if 0 \<le> t \<and> t < 2 ^ 32 then Inr (word_of_int t) else Inl FloatCast)
      | _ \<Rightarrow> Inl FloatCast)"

text \<open>
  \<open>v / (uint32_t)C.scale\<close> for an \<open>int\<close> (\<open>Sint32\<close>) \<open>v\<close>: the division is unsigned,
  its result is stored in an \<open>int\<close>.
\<close>

definition to_cell :: "config \<Rightarrow> int \<Rightarrow> error + int" where
  "to_cell c v =
     ebind (scale_u32 c) (\<lambda>d.
       if d = 0 then Inl DivByZero else Inr (sint ((word_of_int v :: u32) div d)))"

datatype keycode = SDLK_ESCAPE | SDLK_SPACE | SDLK_c | SDLK_r | SDLK_OTHER

datatype button = SDL_BUTTON_LEFT | SDL_BUTTON_RIGHT | SDL_BUTTON_OTHER

datatype window_event = SDL_WINDOWEVENT_ENTER | SDL_WINDOWEVENT_LEAVE | SDL_WINDOWEVENT_OTHER

datatype event =
    SDL_QUIT
  | SDL_KEYDOWN keycode
  | SDL_MOUSEBUTTONDOWN button int int
  | SDL_MOUSEBUTTONUP button
  | SDL_MOUSEMOTION int int
  | SDL_WINDOWEVENT window_event
  | SDL_OTHER_EVENT

text \<open>
  How one pass through the \<open>switch\<close> of \<open>handle_events\<close> ends: \<open>break\<close> goes on
  to the next \<open>SDL_PollEvent\<close>, \<open>return\<close> leaves the function.
\<close>

datatype flow = Continue | Return

text \<open>
  \<open>set_cell(grid, x, y, val); draw_pixel(x, y, color);\<close>, the two statements every
  drawing and erasing branch of \<open>handle_events\<close> starts with.
\<close>

definition paint :: "config \<Rightarrow> int \<Rightarrow> int \<Rightarrow> bool \<Rightarrow> u32 \<Rightarrow> world \<Rightarrow> error + world" where
  "paint c x y val color w =
     ebind (set_cell c (grid (bufs w)) x y val) (\<lambda>g.
       Inr (draw_pixel x y color (w\<lparr>bufs := (bufs w)\<lparr>grid := g\<rparr>\<rparr>)))"

fun handle_event :: "config \<Rightarrow> (nat \<Rightarrow> int) \<Rightarrow> event \<Rightarrow> world \<Rightarrow> error + (flow \<times> world)" where
  "handle_event c rnd SDL_QUIT w = Inr (Return, w\<lparr>state := QUIT\<rparr>)"
| "handle_event c rnd (SDL_KEYDOWN SDLK_ESCAPE) w = Inr (Return, w\<lparr>state := QUIT\<rparr>)"
| "handle_event c rnd (SDL_KEYDOWN SDLK_SPACE) w =
     Inr (Continue, w\<lparr>state := (if state w = RUNNING then PAUSED else RUNNING)\<rparr>)"
| "handle_event c rnd (SDL_KEYDOWN SDLK_c) w =
     ebind (clear_grid (bufs w)) (\<lambda>b.
     ebind (update_screen c (w\<lparr>bufs := b\<rparr>)) (\<lambda>w'. Inr (Continue, w')))"
| "handle_event c rnd (SDL_KEYDOWN SDLK_r) w =
     ebind (fill_grid c rnd w) (\<lambda>w1.
     ebind (update_screen c w1) (\<lambda>w'. Inr (Continue, w')))"
| "handle_event c rnd (SDL_KEYDOWN SDLK_OTHER) w = Inr (Continue, w)"
| "handle_event c rnd (SDL_MOUSEBUTTONDOWN b ex ey) w =
     ebind (to_cell c ex) (\<lambda>x.
     ebind (to_cell c ey) (\<lambda>y.
       if b = SDL_BUTTON_LEFT
       then ebind (paint c x y True (fg_color c) w) (\<lambda>w'. Inr (Continue, w'\<lparr>draw_flag := True\<rparr>))
       else if b = SDL_BUTTON_RIGHT
       then ebind (paint c x y False (bg_color c) w) (\<lambda>w'. Inr (Continue, w'\<lparr>erase_flag := True\<rparr>))
       else Inr (Continue, w)))"
| "handle_event c rnd (SDL_MOUSEBUTTONUP b) w =
     (let w1 = (if b = SDL_BUTTON_LEFT then w\<lparr>draw_flag := False\<rparr> else w);
          w2 = (if b = SDL_BUTTON_RIGHT then w1\<lparr>erase_flag := False\<rparr> else w1)
      in Inr (Continue, w2))"
| "handle_event c rnd (SDL_MOUSEMOTION ex ey) w =
     ebind (to_cell c ex) (\<lambda>x.
     ebind (to_cell c ey) (\<lambda>y.
     ebind (if draw_flag w then paint c x y True (fg_color c) w else Inr w) (\<lambda>w1.
     ebind (if erase_flag w1 then paint c x y False (bg_color c) w1 else Inr w1) (\<lambda>w2.
       Inr (Continue, w2)))))"
| "handle_event c rnd (SDL_WINDOWEVENT e) w =
     (let w1 = (if e = SDL_WINDOWEVENT_ENTER \<and> \<not> active (cp w)
                then w\<lparr>cp := (cp w)\<lparr>active := True\<rparr>\<rparr> else w);
          w2 = (if e = SDL_WINDOWEVENT_LEAVE \<and> active (cp w1)
                then w1\<lparr>cp := (cp w1)\<lparr>active := False\<rparr>\<rparr> else w1)
      in Inr (Continue, w2))"
| "handle_event c rnd SDL_OTHER_EVENT w = Inr (Continue, w)"

text \<open>
  \<open>while (SDL_PollEvent(&event))\<close> takes the events of SDL's queue one by one until the
  queue is empty or a \<open>return\<close> is met; the result holds the events left in the queue.
\<close>

fun handle_events ::
  "config \<Rightarrow> (nat \<Rightarrow> int) \<Rightarrow> event list \<Rightarrow> world \<Rightarrow> error + (event list \<times> world)" where
  "handle_events c rnd [] w = Inr ([], w)"
| "handle_events c rnd (e # es) w =
     ebind (handle_event c rnd e w) (\<lambda>(f, w').
       case f of Return \<Rightarrow> Inr (es, w') | Continue \<Rightarrow> handle_events c rnd es w')"

text \<open>
  \<open>draw_cursor_pixel\<close>; the argument \<open>(mx, my)\<close> is what \<open>SDL_GetMouseState\<close>
  stores into \<open>cp.x\<close> and \<open>cp.y\<close>.
\<close>

definition restore_color :: "config \<Rightarrow> cursor_pixel \<Rightarrow> u32" where
  "restore_color c p = (if prev_state p then fg_color c else bg_color c)"

definition draw_cursor_pixel :: "config \<Rightarrow> int \<times> int \<Rightarrow> world \<Rightarrow> error + world" where
  "draw_cursor_pixel c m w =
     (if \<not> active (cp w)
      then Inr (draw_pixel (prev_x (cp w)) (prev_y (cp w)) (restore_color c (cp w)) w)
      else
        ebind (to_cell c (fst m)) (\<lambda>x.
        ebind (to_cell c (snd m)) (\<lambda>y.
        let w1 = w\<lparr>cp := (cp w)\<lparr>cp_x := x, cp_y := y\<rparr>\<rparr> in
        ebind (get_cell c (grid (bufs w1)) (cp_x (cp w1)) (cp_y (cp w1))) (\<lambda>v.
        let w2 = (if \<not> v then draw_pixel (cp_x (cp w1)) (cp_y (cp w1)) (cp_color c) w1 else w1);
            w3 = (if cp_x (cp w2) \<noteq> prev_x (cp w2) \<or> cp_y (cp w2) \<noteq> prev_y (cp w2)
                  then draw_pixel (prev_x (cp w2)) (prev_y (cp w2)) (restore_color c (cp w2)) w2
                  else w2)
        in
        ebind (get_cell c (grid (bufs w3)) (cp_x (cp w3)) (cp_y (cp w3))) (\<lambda>v'.
          Inr (w3\<lparr>cp := (cp w3)\<lparr>prev_x := cp_x (cp w3), prev_y := cp_y (cp w3),
                                 prev_state := v'\<rparr>\<rparr>))))))"

section \<open>Arguments and main (main.c, lines 406--550)\<close>

text \<open>
  The C library is outside the repository. Its parsers are parameters: \<open>atoi\<close>,
  \<open>atof\<close> followed by the conversion to \<open>float\<close>, and \<open>strtoul\<close> with base 16
  followed by the cast to \<open>uint32_t\<close>. So is \<open>getopt\<close>: a command line is given as
  the values \<open>getopt\<close> returns for it, each with its \<open>optarg\<close>, and the arguments
  from \<open>optind\<close> on once \<open>getopt\<close> has returned -1.
\<close>

record libc =
  atoi :: "string \<Rightarrow> int"
  atof :: "string \<Rightarrow> c_float"
  strtoul16 :: "string \<Rightarrow> u32"

text \<open>\<open>C.scale <= 0\<close> on a \<open>float\<close>: false for a NaN.\<close>

definition float_le_zero :: "c_float \<Rightarrow> bool" where
  "float_le_zero f = (case f of Finite r \<Rightarrow> r \<le> 0 | NegInf \<Rightarrow> True | PosInf \<Rightarrow> False | NaN \<Rightarrow> False)"

text \<open>
  How \<open>set_config\<close> ends: \<open>return true\<close>, \<open>return false\<close> after a line on
  \<open>stderr\<close>, or \<open>exit(0)\<close> after the usage text on \<open>stdout\<close>.
\<close>

datatype set_config_result =
    Return_true config
  | Return_false config string
  | Exit_0 "string list"

definition usage :: "string list" where
  "usage =
     [''Usage: game-of-life [-w WIDTH] [-h HEIGHT] [-s SCALE] [-d DELAY] [-b BG_COLOR] [-f FG_COLOR] [-c CP_COLOR]'',
      [],
      ''Default values:'',
      ''  WIDTH -- 500'',
      ''  HEIGHT -- 300'',
      ''  SCALE -- 3'',
      ''  DELAY -- 20'',
      ''  BG_COLOR -- 000000FF'',
      ''  FG_COLOR -- FFFFFFFF'',
      ''  CP_COLOR -- 444444FF'']"

fun set_config :: "libc \<Rightarrow> (char \<times> string) list \<Rightarrow> string list \<Rightarrow> config \<Rightarrow> set_config_result" where
  "set_config lc [] args c =
     (if length args = 1 \<and> hd args = ''help'' then Exit_0 usage else Return_true c)"
| "set_config lc ((opt, optarg) # rest) args c =
     (if opt = CHR ''w'' then
        (let c' = c\<lparr>width := atoi lc optarg\<rparr>
         in if width c' \<le> 0 then Return_false c' ''Invalid width value''
            else set_config lc rest args c')
      else if opt = CHR ''h'' then
        (let c' = c\<lparr>height := atoi lc optarg\<rparr>
         in if height c' \<le> 0 then Return_false c' ''Invalid height value''
            else set_config lc rest args c')
      else if opt = CHR ''s'' then
        (let c' = c\<lparr>scale := atof lc optarg\<rparr>
         in if float_le_zero (scale c') then Return_false c' ''Invalid scale value''
            else set_config lc rest args c')
      else if opt = CHR ''d'' then
        (let c' = c\<lparr>delay := atoi lc optarg\<rparr>
         in if delay c' < 0 then Return_false c' ''Invalid delay value''
            else set_config lc rest args c')
      else if opt = CHR ''b'' then set_config lc rest args (c\<lparr>bg_color := strtoul16 lc optarg\<rparr>)
      else if opt = CHR ''f'' then set_config lc rest args (c\<lparr>fg_color := strtoul16 lc optarg\<rparr>)
      else if opt = CHR ''c'' then set_config lc rest args (c\<lparr>cp_color := strtoul16 lc optarg\<rparr>)
      else if opt = CHR '':'' then Return_false c ''Option requires a value''
      else if opt = CHR ''?'' then Return_false c ''Unknown option''
      else set_config lc rest args c)"

definition EXIT_SUCCESS :: int where
  "EXIT_SUCCESS = 0"

definition EXIT_FAILURE :: int where
  "EXIT_FAILURE = 1"

text \<open>
  The allocation in \<open>main\<close>: \<open>grid_size = C.width * C.height * sizeof(bool)\<close>, the
  product taken in \<open>int\<close>, then two buffers of that many bytes, zeroed. \<open>malloc\<close> is
  taken to succeed, except for a negative product: that is a size no \<open>malloc\<close> grants,
  and \<open>memset\<close> then writes through a null pointer.
\<close>

definition alloc_grids :: "config \<Rightarrow> error + buffers" where
  "alloc_grids c =
     ebind (c_int (width c * height c)) (\<lambda>n.
       if n < 0 then Inl OutOfBounds
       else Inr \<lparr>grid = replicate (nat n) False, next_gen = replicate (nat n) False,
                 grid_size = nat n\<rparr>)"

text \<open>The globals as their initialisers and the lines of \<open>main\<close> before the loop leave them.\<close>

definition init_world :: "config \<Rightarrow> buffers \<Rightarrow> world" where
  "init_world c b =
     \<lparr>bufs = b, state = RUNNING,
      cp = \<lparr>cp_x = 0, cp_y = 0, prev_x = 0, prev_y = 0, prev_state = False, active = False\<rparr>,
      draw_flag = False, erase_flag = False,
      bg_rgba = extract_color (bg_color c), fg_rgba = extract_color (fg_color c),
      screen = [], rand_calls = 0\<rparr>"

text \<open>
  One \<open>frame\<close> is what the environment supplies to one pass through the main loop: the
  events that have arrived in SDL's queue since the pass before, and the mouse position
  \<open>SDL_GetMouseState\<close> reports. The loop of the model ends when \<open>state\<close> is
  \<open>QUIT\<close> at the loop test, as in the source, or when the supplied frames are used up.
\<close>

record frame =
  arrived :: "event list"
  mouse :: "int \<times> int"

fun main_loop ::
  "config \<Rightarrow> (nat \<Rightarrow> int) \<Rightarrow> frame list \<Rightarrow> event list \<Rightarrow> world \<Rightarrow> error + (event list \<times> world)" where
  "main_loop c rnd [] q w = Inr (q, w)"
| "main_loop c rnd (f # fs) q w =
     (if state w \<noteq> QUIT then
        ebind (handle_events c rnd (q @ arrived f) w) (\<lambda>(q', w1).
          if state w1 = PAUSED
          then ebind (draw_cursor_pixel c (mouse f) w1) (\<lambda>w2. main_loop c rnd fs q' w2)
          else ebind (update_grid c (bufs w1)) (\<lambda>b.
               ebind (update_screen c (w1\<lparr>bufs := b\<rparr>)) (\<lambda>w2. main_loop c rnd fs q' w2)))
      else Inr (q, w))"

text \<open>
  \<open>main\<close>. \<open>sdl_error\<close> is the message of the first SDL call of \<open>sdl_init\<close> that
  fails, if one does. The outcome holds the exit status (none while the loop has not
  ended, or after undefined behaviour), the lines written to \<open>stderr\<close> and
  \<open>stdout\<close>, and the simulation state once the buffers exist.
\<close>

record outcome =
  exit_code :: "int option"
  stderr :: "string list"
  stdout :: "string list"
  sim :: "(error + event list \<times> world) option"

definition main ::
  "libc \<Rightarrow> string option \<Rightarrow> (nat \<Rightarrow> int) \<Rightarrow> (char \<times> string) list \<Rightarrow> string list \<Rightarrow> frame list
     \<Rightarrow> outcome" where
  "main lc sdl_error rnd opts args frames =
     (case set_config lc opts args C of
        Return_false c msg \<Rightarrow>
          \<lparr>exit_code = Some EXIT_FAILURE, stderr = [msg], stdout = [], sim = None\<rparr>
      | Exit_0 out \<Rightarrow> \<lparr>exit_code = Some 0, stderr = [], stdout = out, sim = None\<rparr>
      | Return_true c \<Rightarrow>
          (case sdl_error of
             Some msg \<Rightarrow> \<lparr>exit_code = Some EXIT_FAILURE, stderr = [msg], stdout = [], sim = None\<rparr>
           | None \<Rightarrow>
               (case ebind (alloc_grids c) (\<lambda>b. main_loop c rnd frames [] (init_world c b)) of
                  Inl e \<Rightarrow> \<lparr>exit_code = None, stderr = [], stdout = [], sim = Some (Inl e)\<rparr>
                | Inr (q, w) \<Rightarrow>
                    \<lparr>exit_code = (if state w = QUIT then Some EXIT_SUCCESS else None),
                     stderr = [], stdout = [], sim = Some (Inr (q, w))\<rparr>)))"

section \<open>Notions of the specification\<close>

text \<open>The coordinates of the grid: \<open>[0, width) \<times> [0, height)\<close>.\<close>

definition in_range :: "config \<Rightarrow> int \<Rightarrow> int \<Rightarrow> bool" where
  "in_range c x y \<longleftrightarrow> 0 \<le> x \<and> x < width c \<and> 0 \<le> y \<and> y < height c"

text \<open>
  A buffer as \<open>main\<close> allocates it for a grid of \<open>width \<times> height\<close> cells, both at
  least 1: the cell count fits the \<open>int\<close> in which \<open>main\<close> computes it, and the buffer
  has that many cells.
\<close>

definition allocated :: "config \<Rightarrow> bool list \<Rightarrow> bool" where
  "allocated c arr \<longleftrightarrow>
     1 \<le> width c \<and> 1 \<le> height c \<and> width c * height c \<le> INT_MAX \<and>
     length arr = nat (width c * height c)"

definition buffers_ok :: "config \<Rightarrow> buffers \<Rightarrow> bool" where
  "buffers_ok c s \<longleftrightarrow>
     allocated c (grid s) \<and> allocated c (next_gen s) \<and> grid_size s = nat (width c * height c)"

text \<open>
  The Moore neighbourhood of \<open>(x, y)\<close> clipped at the grid boundary: the cells of the
  grid other than \<open>(x, y)\<close> at most one column and one row away, with no wraparound.
\<close>

definition moore_clipped :: "config \<Rightarrow> int \<Rightarrow> int \<Rightarrow> (int \<times> int) set" where
  "moore_clipped c x y =
     {(a, b). in_range c a b \<and> (a, b) \<noteq> (x, y) \<and> \<bar>a - x\<bar> \<le> 1 \<and> \<bar>b - y\<bar> \<le> 1}"

definition alive_neighbors :: "config \<Rightarrow> bool list \<Rightarrow> int \<Rightarrow> int \<Rightarrow> nat" where
  "alive_neighbors c g x y =
     card {p \<in> moore_clipped c x y. get_cell c g (fst p) (snd p) = Inr True}"

text \<open>\<open>n\<close> applications of \<open>update_grid\<close>, one after the other.\<close>

fun steps :: "nat \<Rightarrow> config \<Rightarrow> buffers \<Rightarrow> error + buffers" where
  "steps 0 c s = Inr s"
| "steps (Suc n) c s = ebind (update_grid c s) (steps n c)"

text \<open>A grid of width 5 and height 3 (the options \<open>-w 5 -h 3\<close>) holding a horizontal blinker.\<close>

definition C53 :: config where
  "C53 = C\<lparr>width := 5, height := 3\<rparr>"

definition blinker :: buffers where
  "blinker =
     \<lparr>grid = [False, False, False, False, True, False, False, True, False,
              False, True, False, False, False, False],
      next_gen = replicate 15 False, grid_size = 15\<rparr>"

definition blinker_next :: buffers where
  "blinker_next =
     \<lparr>grid = [False, False, False, False, False, False, True, True, True,
              False, False, False, False, False, False],
      next_gen = [False, False, False, False, False, False, True, True, True,
                  False, False, False, False, False, False],
      grid_size = 15\<rparr>"

text \<open>The same grid holding a 2 by 2 block at \<open>(1, 1)\<close>.\<close>

definition block_grid :: buffers where
  "block_grid =
     \<lparr>grid = [False, False, False, False, True, True, False, True, True,
              False, False, False, False, False, False],
      next_gen = replicate 15 False, grid_size = 15\<rparr>"

text \<open>The program paused over the blinker, and paused with the pointer inside the window.\<close>

definition paused_blinker :: world where
  "paused_blinker = (init_world C53 blinker)\<lparr>state := PAUSED\<rparr>"


text \<open>
  The malformed options: a width, height or scale whose value is not positive, a negative
  delay, an unknown option (\<open>getopt\<close> returns \<open>?\<close>), an option without its
  argument (\<open>getopt\<close> returns \<open>:\<close>).
\<close>

definition bad_option :: "libc \<Rightarrow> char \<times> string \<Rightarrow> bool" where
  "bad_option lc p =
     (case p of (opt, optarg) \<Rightarrow>
        opt = CHR ''w'' \<and> atoi lc optarg \<le> 0 \<or>
        opt = CHR ''h'' \<and> atoi lc optarg \<le> 0 \<or>
        opt = CHR ''s'' \<and> float_le_zero (atof lc optarg) \<or>
        opt = CHR ''d'' \<and> atoi lc optarg < 0 \<or>
        opt = CHR ''?'' \<or> opt = CHR '':'')"

definition error_messages :: "string set" where
  "error_messages =
     {''Invalid width value'', ''Invalid height value'', ''Invalid scale value'',
      ''Invalid delay value'', ''Option requires a value'', ''Unknown option''}"

text \<open>Parsers that return 0 for every string, as the C library's do for a string without digits.\<close>

definition libc_zero :: libc where
  "libc_zero = \<lparr>atoi = (\<lambda>s. 0), atof = (\<lambda>s. Finite 0), strtoul16 = (\<lambda>s. 0)\<rparr>"

text \<open>The 32-bit RGBA value packed from its four components.\<close>

definition rgba :: "u8 \<Rightarrow> u8 \<Rightarrow> u8 \<Rightarrow> u8 \<Rightarrow> u32" where
  "rgba r g b a = push_bit 24 (ucast r) OR push_bit 16 (ucast g) OR push_bit 8 (ucast b) OR ucast a"


section \<open>Auxiliary notions of the proofs\<close>

text \<open>The cell at in-range coordinates, read without the checks of \<open>get_cell\<close>.\<close>

definition cell :: "config \<Rightarrow> bool list \<Rightarrow> int \<Rightarrow> int \<Rightarrow> bool" where
  "cell c arr x y = arr ! nat (x * height c + y)"

text \<open>The coordinates \<open>is_alive\<close> reads for its count, and the count it reaches.\<close>

definition counted :: "config \<Rightarrow> int \<Rightarrow> int \<Rightarrow> (int \<times> int) list" where
  "counted c x y = map snd (filter fst (neighbor_probes c x y))"

definition probe_count :: "config \<Rightarrow> bool list \<Rightarrow> int \<Rightarrow> int \<Rightarrow> nat" where
  "probe_count c g x y =
     length (filter (\<lambda>(gd, a, b). gd \<and> cell c g a b) (neighbor_probes c x y))"

definition neighbor_coords :: "int \<Rightarrow> int \<Rightarrow> (int \<times> int) list" where
  "neighbor_coords a b =
     [(a - 1, b), (a + 1, b), (a, b - 1), (a, b + 1),
      (a - 1, b - 1), (a + 1, b - 1), (a - 1, b + 1), (a + 1, b + 1)]"

text \<open>The three tests at the end of \<open>is_alive\<close>, and how often they read the cell itself.\<close>

definition life_rule :: "bool \<Rightarrow> nat \<Rightarrow> bool" where
  "life_rule alive n =
     (if alive \<and> (n < 2 \<or> n > 3) then False
      else if alive \<and> (n = 2 \<or> n = 3) then True
      else if \<not> alive \<and> n = 3 then True
      else False)"

definition self_reads :: "bool \<Rightarrow> nat \<Rightarrow> nat" where
  "self_reads alive n = (if alive then (if n < 2 \<or> n > 3 then 1 else 2) else 3)"

definition next_cell :: "config \<Rightarrow> bool list \<Rightarrow> int \<Rightarrow> int \<Rightarrow> bool" where
  "next_cell c g x y = life_rule (cell c g x y) (probe_count c g x y)"

text \<open>
  The invariant of the two loops of \<open>update_grid\<close>, at column \<open>i\<close> and row \<open>j\<close>:
  \<open>grid\<close> is untouched and \<open>next_gen\<close> holds the next value of every cell before
  \<open>(i, j)\<close> in the order of the loops.
\<close>

definition filled :: "config \<Rightarrow> buffers \<Rightarrow> int \<Rightarrow> int \<Rightarrow> buffers \<Rightarrow> bool" where
  "filled c s i j t \<longleftrightarrow>
     grid t = grid s \<and> grid_size t = grid_size s \<and> allocated c (next_gen t) \<and>
     (\<forall>a b. in_range c a b \<and> (a < i \<or> a = i \<and> b < j) \<longrightarrow>
        cell c (next_gen t) a b = next_cell c (grid s) a b)"

definition in_block :: "int \<Rightarrow> int \<Rightarrow> int \<Rightarrow> int \<Rightarrow> bool" where
  "in_block x y a b \<longleftrightarrow> (a = x \<or> a = x + 1) \<and> (b = y \<or> b = y + 1)"

section \<open>The flat index\<close>

lemma flat_bounds:
  assumes "in_range c x y"
  shows "0 \<le> x * height c" "x * height c + y < width c * height c" "0 \<le> x * height c + y"
proof -
  from assms have x: "0 \<le> x" "x + 1 \<le> width c" and y: "0 \<le> y" "y < height c"
    by (simp_all add: in_range_def)
  then have h: "0 \<le> height c" by simp
  show "0 \<le> x * height c" using x h by simp
  have "(x + 1) * height c \<le> width c * height c"
    using x(2) h by (rule mult_right_mono)
  then show "x * height c + y < width c * height c"
    using y by (simp add: algebra_simps)
  show "0 \<le> x * height c + y" using \<open>0 \<le> x * height c\<close> y by simp
qed

lemma cell_index_in_range:
  assumes "in_range c x y" "allocated c arr"
  shows "cell_index c arr x y = Inr (nat (x * height c + y))"
proof -
  note b = flat_bounds [OF assms(1)]
  from assms(1) have y: "0 \<le> y" by (simp add: in_range_def)
  from assms(2) have m: "width c * height c \<le> INT_MAX"
    and l: "int (length arr) = width c * height c"
    using b by (simp_all add: allocated_def)
  have "c_int (x * height c) = Inr (x * height c)"
    using b m y by (simp add: c_int_def INT_MIN_def)
  moreover have "c_int (x * height c + y) = Inr (x * height c + y)"
    using b m by (simp add: c_int_def INT_MIN_def)
  ultimately show ?thesis
    using b l by (simp add: cell_index_def ebind_def)
qed

lemma flat_inj:
  assumes "in_range c x y" "in_range c x' y'" "x * height c + y = x' * height c + y'"
  shows "x = x' \<and> y = y'"
proof -
  from assms(1,2) have y: "0 \<le> y" "y < height c" and y': "0 \<le> y'" "y' < height c"
    by (simp_all add: in_range_def)
  have "(x * height c + y) div height c = x" using y by simp
  moreover have "(x' * height c + y') div height c = x'" using y' by simp
  ultimately have "x = x'" using assms(3) by simp
  with assms(3) show ?thesis by simp
qed

lemma get_cell_in_range:
  "in_range c x y \<Longrightarrow> allocated c arr \<Longrightarrow> get_cell c arr x y = Inr (cell c arr x y)"
  by (simp add: get_cell_def cell_index_in_range ebind_def cell_def)

lemma set_cell_in_range:
  "in_range c x y \<Longrightarrow> allocated c arr \<Longrightarrow>
   set_cell c arr x y v = Inr (arr[nat (x * height c + y) := v])"
  by (simp add: set_cell_def cell_index_in_range ebind_def)

lemma cell_update:
  assumes "in_range c x y" "in_range c a b" "allocated c arr"
  shows "cell c (arr[nat (x * height c + y) := v]) a b =
         (if (a, b) = (x, y) then v else cell c arr a b)"
proof (cases "(a, b) = (x, y)")
  case True
  have "nat (x * height c + y) < length arr"
    using flat_bounds [OF assms(1)] assms(3) by (simp add: allocated_def)
  with True show ?thesis by (simp add: cell_def)
next
  case False
  then have "x * height c + y \<noteq> a * height c + b"
    using flat_inj [OF assms(1,2)] by auto
  then have "nat (x * height c + y) \<noteq> nat (a * height c + b)"
    using flat_bounds(3) [OF assms(1)] flat_bounds(3) [OF assms(2)] by simp
  with False show ?thesis by (auto simp: cell_def)
qed

lemma grid_eqI:
  assumes "allocated c g" "allocated c g'"
    and "\<And>x y. in_range c x y \<Longrightarrow> cell c g x y = cell c g' x y"
  shows "g = g'"
proof (rule nth_equalityI)
  show "length g = length g'" using assms(1,2) by (simp add: allocated_def)
next
  fix i assume i: "i < length g"
  from assms(1) have h: "0 < height c" and len: "int (length g) = width c * height c"
    by (simp_all add: allocated_def)
  let ?x = "int i div height c" and ?y = "int i mod height c"
  have e: "?x * height c + ?y = int i" by simp
  have below: "?x * height c \<le> int i" using e h
    by (metis add.commute le_add_same_cancel2 pos_mod_sign)
  have "?x < width c"
  proof (rule ccontr)
    assume "\<not> ?x < width c"
    then have "width c * height c \<le> ?x * height c"
      using h by (simp add: mult_right_mono)
    with below i len show False by simp
  qed
  moreover have "0 \<le> ?x" using h by (simp add: pos_imp_zdiv_nonneg_iff)
  ultimately have "in_range c ?x ?y" using h by (simp add: in_range_def)
  from assms(3) [OF this] show "g ! i = g' ! i"
    unfolding cell_def e by simp
qed

section \<open>Counting neighbours\<close>

lemma count_neighbors_ok:
  assumes "allocated c g" "\<forall>(gd, a, b) \<in> set ps. gd \<longrightarrow> in_range c a b"
  shows "count_neighbors c g ps (n, rs) =
         Inr (n + int (length (filter (\<lambda>(gd, a, b). gd \<and> cell c g a b) ps)),
              rs @ map snd (filter fst ps))"
  using assms(2)
proof (induction ps arbitrary: n rs)
  case Nil
  show ?case by simp
next
  case (Cons p ps)
  obtain gd a b where p: "p = (gd, a, b)" by (cases p)
  from Cons.prems have rest: "\<forall>(gd, a, b) \<in> set ps. gd \<longrightarrow> in_range c a b"
    and here: "gd \<longrightarrow> in_range c a b"
    by (simp_all add: p)
  show ?case
  proof (cases gd)
    case True
    with here have "get_cell c g a b = Inr (cell c g a b)"
      using assms(1) by (simp add: get_cell_in_range)
    with True show ?thesis
      by (simp add: p ebind_def Cons.IH [OF rest])
  next
    case False
    then show ?thesis by (simp add: p Cons.IH [OF rest])
  qed
qed

lemma probes_in_range:
  "in_range c x y \<Longrightarrow> \<forall>(gd, a, b) \<in> set (neighbor_probes c x y). gd \<longrightarrow> in_range c a b"
  by (simp add: neighbor_probes_def in_range_def)

lemma probes_guard_iff:
  "in_range c x y \<Longrightarrow> \<forall>(gd, a, b) \<in> set (neighbor_probes c x y). gd \<longleftrightarrow> in_range c a b"
  by (simp add: neighbor_probes_def in_range_def) arith

lemma map_snd_probes: "map snd (neighbor_probes c a b) = neighbor_coords a b"
  by (simp add: neighbor_probes_def neighbor_coords_def)

lemma set_guarded: "set (map snd (filter fst ps)) = {p. (True, p) \<in> set ps}"
  by (induction ps) auto

lemma distinct_guarded: "distinct (map snd ps) \<Longrightarrow> distinct (map snd (filter fst ps))"
  by (induction ps) auto

lemma filter_guarded:
  "length (filter (\<lambda>(gd, a, b). gd \<and> P a b) ps) =
   length (filter (\<lambda>(a, b). P a b) (map snd (filter fst ps)))"
  by (induction ps) auto

lemma distinct_counted: "distinct (counted c x y)"
  unfolding counted_def
  by (rule distinct_guarded) (simp add: neighbor_probes_def)

lemma mem_counted:
  "(a, b) \<in> set (counted c x y) \<longleftrightarrow>
     (0 < x \<and> a = x - 1 \<and> b = y) \<or>
     (x < width c - 1 \<and> a = x + 1 \<and> b = y) \<or>
     (0 < y \<and> a = x \<and> b = y - 1) \<or>
     (y < height c - 1 \<and> a = x \<and> b = y + 1) \<or>
     (0 < x \<and> 0 < y \<and> a = x - 1 \<and> b = y - 1) \<or>
     (x < width c - 1 \<and> 0 < y \<and> a = x + 1 \<and> b = y - 1) \<or>
     (0 < x \<and> y < height c - 1 \<and> a = x - 1 \<and> b = y + 1) \<or>
     (x < width c - 1 \<and> y < height c - 1 \<and> a = x + 1 \<and> b = y + 1)"
  unfolding counted_def set_guarded
  by (simp add: neighbor_probes_def)

lemma mem_moore:
  assumes "in_range c x y"
  shows "(a, b) \<in> moore_clipped c x y \<longleftrightarrow> (a, b) \<in> set (counted c x y)"
  using assms unfolding mem_counted moore_clipped_def in_range_def
  by (simp add: abs_le_iff) presburger

lemma counted_alive:
  assumes "allocated c g" "in_range c x y"
  shows "filter (\<lambda>(a, b). get_cell c g a b = Inr True) (counted c x y) =
         filter (\<lambda>(a, b). cell c g a b) (counted c x y)"
proof (rule filter_cong [OF refl])
  fix p assume "p \<in> set (counted c x y)"
  then have "in_range c (fst p) (snd p)"
    using mem_moore [OF assms(2), of "fst p" "snd p"] by (auto simp: moore_clipped_def)
  from get_cell_in_range [OF this assms(1)]
  show "(case p of (a, b) \<Rightarrow> get_cell c g a b = Inr True) = (case p of (a, b) \<Rightarrow> cell c g a b)"
    by (simp add: case_prod_beta)
qed

lemma probe_count_counted:
  "probe_count c g x y = length (filter (\<lambda>(a, b). cell c g a b) (counted c x y))"
  unfolding probe_count_def counted_def by (rule filter_guarded)

lemma probe_count_card:
  assumes "allocated c g" "in_range c x y"
  shows "probe_count c g x y = alive_neighbors c g x y"
proof -
  let ?P = "\<lambda>(a, b). get_cell c g a b = Inr True"
  have "probe_count c g x y = length (filter ?P (counted c x y))"
    by (simp add: probe_count_counted counted_alive [OF assms])
  also have "\<dots> = card (set (filter ?P (counted c x y)))"
    by (rule distinct_card [symmetric]) (simp add: distinct_counted)
  also have "set (filter ?P (counted c x y)) =
             {p \<in> moore_clipped c x y. get_cell c g (fst p) (snd p) = Inr True}"
    using mem_moore [OF assms(2)] by (auto simp: case_prod_beta)
  finally show ?thesis by (simp add: alive_neighbors_def)
qed

lemma count_neighbors_probes:
  assumes "allocated c g" "in_range c x y"
  shows "count_neighbors c g (neighbor_probes c x y) (0, []) =
         Inr (int (probe_count c g x y), counted c x y)"
  using count_neighbors_ok [OF assms(1) probes_in_range [OF assms(2)], of 0 "[]"]
  by (simp add: probe_count_def counted_def)

lemma is_alive_in_range:
  assumes "in_range c x y" "allocated c g"
  shows "is_alive c g x y =
         Inr (life_rule (cell c g x y) (probe_count c g x y),
              counted c x y @ replicate (self_reads (cell c g x y) (probe_count c g x y)) (x, y))"
proof -
  note cn = count_neighbors_probes [OF assms(2,1)]
  have gc: "get_cell c g x y = Inr (cell c g x y)"
    using assms by (rule get_cell_in_range)
  show ?thesis
    unfolding is_alive_def cn gc
    by (simp add: ebind_def life_rule_def self_reads_def eval_nat_numeral)
qed

section \<open>The loops of update_grid\<close>

lemma for_loop_invariant:
  assumes "i \<le> n" "I i s"
    and step: "\<And>k t. i \<le> k \<Longrightarrow> k < n \<Longrightarrow> I k t \<Longrightarrow> \<exists>t'. body k t = Inr t' \<and> I (k + 1) t'"
  shows "\<exists>t. for_loop i n body s = Inr t \<and> I n t"
  using assms
proof (induction i n body s rule: for_loop.induct)
  case (1 i n body s)
  show ?case
  proof (cases "i < n")
    case True
    from "1.prems"(3) [of i s] True "1.prems"(2)
    obtain t' where t': "body i s = Inr t'" "I (i + 1) t'" by auto
    have "\<exists>t. for_loop (i + 1) n body t' = Inr t \<and> I n t"
    proof (rule "1.IH" [OF True])
      show "i + 1 \<le> n" using True by simp
      show "I (i + 1) t'" by (rule t')
      show "\<exists>t'. body k t = Inr t' \<and> I (k + 1) t'" if "i + 1 \<le> k" "k < n" "I k t" for k t
        using that "1.prems"(3) [of k t] by simp
    qed
    then show ?thesis
      using True t' by (subst for_loop.simps) (simp add: ebind_def)
  next
    case False
    with "1.prems" have "i = n" by simp
    then show ?thesis
      using "1.prems"(2) by (subst for_loop.simps) simp
  qed
qed

lemma inner_step:
  assumes ok: "allocated c (grid s)" and i: "0 \<le> i" "i < width c" and j: "0 \<le> j" "j < height c"
    and inv: "filled c s i j t"
  shows "\<exists>t'. ebind (is_alive c (grid t) i j) (\<lambda>(alive, reads).
               ebind (set_cell c (next_gen t) i j alive) (\<lambda>ng. Inr (t\<lparr>next_gen := ng\<rparr>))) = Inr t'
              \<and> filled c s i (j + 1) t'"
proof -
  have r: "in_range c i j" using i j by (simp add: in_range_def)
  from inv have g: "grid t = grid s" and a: "allocated c (next_gen t)"
    by (simp_all add: filled_def)
  let ?v = "next_cell c (grid s) i j"
  let ?t = "t\<lparr>next_gen := (next_gen t)[nat (i * height c + j) := ?v]\<rparr>"
  have run: "ebind (is_alive c (grid t) i j) (\<lambda>(alive, reads).
               ebind (set_cell c (next_gen t) i j alive) (\<lambda>ng. Inr (t\<lparr>next_gen := ng\<rparr>))) = Inr ?t"
    using is_alive_in_range [OF r ok] set_cell_in_range [OF r a]
    by (simp add: g ebind_def next_cell_def)
  have "filled c s i (j + 1) ?t"
    unfolding filled_def
  proof (intro conjI allI impI)
    show "grid ?t = grid s" using g by simp
    show "grid_size ?t = grid_size s" using inv by (simp add: filled_def)
    show "allocated c (next_gen ?t)" using a by (simp add: allocated_def)
    fix a' b'
    assume h: "in_range c a' b' \<and> (a' < i \<or> a' = i \<and> b' < j + 1)"
    show "cell c (next_gen ?t) a' b' = next_cell c (grid s) a' b'"
    proof (cases "(a', b') = (i, j)")
      case True
      then show ?thesis using cell_update [OF r r a] by simp
    next
      case False
      with h have "a' < i \<or> a' = i \<and> b' < j" by auto
      with h inv have "cell c (next_gen t) a' b' = next_cell c (grid s) a' b'"
        by (simp add: filled_def)
      with False h show ?thesis using cell_update [OF r _ a, of a' b'] by simp
    qed
  qed
  with run show ?thesis by blast
qed

lemma inner_loop:
  assumes ok: "allocated c (grid s)" and i: "0 \<le> i" "i < width c" and inv: "filled c s i 0 t"
  shows "\<exists>t'. for_loop 0 (height c) (\<lambda>j t.
               ebind (is_alive c (grid t) i j) (\<lambda>(alive, reads).
               ebind (set_cell c (next_gen t) i j alive) (\<lambda>ng. Inr (t\<lparr>next_gen := ng\<rparr>)))) t = Inr t'
              \<and> filled c s (i + 1) 0 t'"
proof -
  have h: "0 \<le> height c" using ok by (simp add: allocated_def)
  have "\<exists>t'. for_loop 0 (height c) (\<lambda>j t.
               ebind (is_alive c (grid t) i j) (\<lambda>(alive, reads).
               ebind (set_cell c (next_gen t) i j alive) (\<lambda>ng. Inr (t\<lparr>next_gen := ng\<rparr>)))) t = Inr t'
              \<and> filled c s i (height c) t'"
    by (rule for_loop_invariant [where I = "filled c s i", OF h inv]) (rule inner_step [OF ok i])
  then obtain t' where t': "for_loop 0 (height c) (\<lambda>j t.
               ebind (is_alive c (grid t) i j) (\<lambda>(alive, reads).
               ebind (set_cell c (next_gen t) i j alive) (\<lambda>ng. Inr (t\<lparr>next_gen := ng\<rparr>)))) t = Inr t'"
    and f: "filled c s i (height c) t'" by blast
  have "cell c (next_gen t') a b = next_cell c (grid s) a b"
    if "in_range c a b \<and> (a < i + 1 \<or> a = i + 1 \<and> b < 0)" for a b
  proof -
    from that have "in_range c a b \<and> (a < i \<or> a = i \<and> b < height c)"
      by (auto simp: in_range_def)
    with f show ?thesis unfolding filled_def by blast
  qed
  with f have "filled c s (i + 1) 0 t'"
    unfolding filled_def by blast
  with t' show ?thesis by blast
qed

lemma update_grid_ok:
  assumes "buffers_ok c s"
  shows "\<exists>s'. update_grid c s = Inr s' \<and> buffers_ok c s' \<and> next_gen s' = grid s' \<and>
              (\<forall>x y. in_range c x y \<longrightarrow> cell c (grid s') x y = next_cell c (grid s) x y)"
proof -
  from assms have ok: "allocated c (grid s)" and ng: "allocated c (next_gen s)"
    and sz: "grid_size s = nat (width c * height c)"
    by (simp_all add: buffers_ok_def)
  have w: "0 \<le> width c" using ok by (simp add: allocated_def)
  have start: "filled c s 0 0 s"
    using ng by (auto simp: filled_def in_range_def)
  have "\<exists>t. for_loop 0 (width c) (\<lambda>i.
              for_loop 0 (height c) (\<lambda>j t.
                ebind (is_alive c (grid t) i j) (\<lambda>(alive, reads).
                ebind (set_cell c (next_gen t) i j alive) (\<lambda>ng.
                  Inr (t\<lparr>next_gen := ng\<rparr>))))) s = Inr t \<and> filled c s (width c) 0 t"
    by (rule for_loop_invariant [where I = "\<lambda>i. filled c s i 0", OF w start])
       (rule inner_loop [OF ok])
  then obtain t where t: "for_loop 0 (width c) (\<lambda>i.
              for_loop 0 (height c) (\<lambda>j t.
                ebind (is_alive c (grid t) i j) (\<lambda>(alive, reads).
                ebind (set_cell c (next_gen t) i j alive) (\<lambda>ng.
                  Inr (t\<lparr>next_gen := ng\<rparr>))))) s = Inr t"
    and f: "filled c s (width c) 0 t" by blast
  from f have g: "grid t = grid s" and gs: "grid_size t = grid_size s"
    and a: "allocated c (next_gen t)"
    and v: "\<And>x y. in_range c x y \<Longrightarrow> cell c (next_gen t) x y = next_cell c (grid s) x y"
    by (simp_all add: filled_def in_range_def)
  have len: "length (grid t) = grid_size t" "length (next_gen t) = grid_size t"
    using ok a sz by (simp_all add: g gs allocated_def)
  let ?s' = "t\<lparr>grid := next_gen t\<rparr>"
  have "update_grid c s = Inr ?s'"
    unfolding update_grid_def t by (simp add: ebind_def len)
  moreover have "buffers_ok c ?s'"
    using a sz by (simp add: buffers_ok_def gs)
  ultimately show ?thesis using v by auto
qed

section \<open>Patterns: the block\<close>

lemma filter_probes_pattern:
  assumes "\<forall>(gd, p, q) \<in> set ps. (gd \<and> cell c g p q) \<longleftrightarrow> P p q"
  shows "length (filter (\<lambda>(gd, p, q). gd \<and> cell c g p q) ps) =
         length (filter (\<lambda>(p, q). P p q) (map snd ps))"
  using assms by (induction ps) auto

lemma probe_count_pattern:
  assumes r: "in_range c a b"
    and sub: "\<And>p q. P p q \<Longrightarrow> in_range c p q"
    and cells: "\<And>p q. in_range c p q \<Longrightarrow> cell c g p q \<longleftrightarrow> P p q"
  shows "probe_count c g a b = length (filter (\<lambda>(p, q). P p q) (neighbor_coords a b))"
proof -
  have "\<forall>(gd, p, q) \<in> set (neighbor_probes c a b). (gd \<and> cell c g p q) \<longleftrightarrow> P p q"
    using probes_guard_iff [OF r] sub cells by fastforce
  from filter_probes_pattern [OF this] show ?thesis
    by (simp add: probe_count_def map_snd_probes)
qed

lemma neighbor_coords_near:
  "(p, q) \<in> set (neighbor_coords a b) \<Longrightarrow> a - 1 \<le> p \<and> p \<le> a + 1 \<and> b - 1 \<le> q \<and> q \<le> b + 1"
  by (auto simp: neighbor_coords_def)

lemma block_count_far:
  assumes "a < x - 1 \<or> x + 2 < a \<or> b < y - 1 \<or> y + 2 < b"
  shows "filter (\<lambda>(p, q). in_block x y p q) (neighbor_coords a b) = []"
proof -
  have "\<not> in_block x y p q" if "(p, q) \<in> set (neighbor_coords a b)" for p q
    using neighbor_coords_near [OF that] assms by (auto simp: in_block_def)
  then show ?thesis
    by (auto simp: filter_empty_conv)
qed

lemma block_count_near:
  assumes "da \<in> {-1, 0, 1, 2}" "db \<in> {-1, 0, 1, 2}"
  shows "life_rule (in_block x y (x + da) (y + db))
           (length (filter (\<lambda>(p, q). in_block x y p q) (neighbor_coords (x + da) (y + db))))
         \<longleftrightarrow> in_block x y (x + da) (y + db)"
  using assms
  apply (elim insertE emptyE)
  apply (simp_all add: in_block_def neighbor_coords_def life_rule_def)
  done

lemma block_next:
  assumes r: "in_range c a b"
    and blk: "0 \<le> x" "x + 1 < width c" "0 \<le> y" "y + 1 < height c"
    and cells: "\<And>p q. in_range c p q \<Longrightarrow> cell c g p q \<longleftrightarrow> in_block x y p q"
  shows "next_cell c g a b \<longleftrightarrow> in_block x y a b"
proof -
  have sub: "in_range c p q" if "in_block x y p q" for p q
    using that blk by (auto simp: in_block_def in_range_def)
  have n: "probe_count c g a b = length (filter (\<lambda>(p, q). in_block x y p q) (neighbor_coords a b))"
    using r sub cells by (rule probe_count_pattern)
  show ?thesis
  proof (cases "a < x - 1 \<or> x + 2 < a \<or> b < y - 1 \<or> y + 2 < b")
    case True
    then have "\<not> in_block x y a b" by (auto simp: in_block_def)
    then show ?thesis
      using block_count_far [OF True] cells [OF r]
      by (simp add: next_cell_def n life_rule_def)
  next
    case False
    then have "a - x \<in> {-1, 0, 1, 2}" "b - y \<in> {-1, 0, 1, 2}" by auto
    from block_count_near [OF this, of x y] show ?thesis
      using cells [OF r] by (simp add: next_cell_def n)
  qed
qed

lemma buffers_ok_blinker: "buffers_ok C53 blinker"
  by (simp add: buffers_ok_def allocated_def C53_def C_def blinker_def INT_MAX_def)

lemma allocated_blinker: "allocated C53 (grid blinker)"
  using buffers_ok_blinker by (simp add: buffers_ok_def)

lemma in_range_C53: "in_range C53 a b \<longleftrightarrow> a \<in> {0, 1, 2, 3, 4} \<and> b \<in> {0, 1, 2}"
  by (auto simp: in_range_def C53_def)

section \<open>Concrete grids and single steps\<close>

lemma blinker_eval: "update_grid C53 blinker = Inr blinker_next"
  by code_simp

lemma in_range_5_3:
  "width c = 5 \<Longrightarrow> height c = 3 \<Longrightarrow> in_range c a b \<longleftrightarrow> a \<in> {0, 1, 2, 3, 4} \<and> b \<in> {0, 1, 2}"
  by (auto simp: in_range_def)

lemma blinker_next_cell:
  assumes d: "width c = 5" "height c = 3" and r: "in_range c a b"
    and cells: "\<And>p q. in_range c p q \<Longrightarrow> cell c g p q \<longleftrightarrow> (p, q) \<in> {(1, 1), (2, 1), (3, 1)}"
  shows "next_cell c g a b \<longleftrightarrow> (a, b) \<in> {(2, 0), (2, 1), (2, 2)}"
proof -
  have sub: "in_range c p q" if "(p, q) \<in> {(1, 1), (2, 1), (3, 1)}" for p q
    using that by (auto simp: in_range_5_3 [OF d])
  have n: "probe_count c g a b =
           length (filter (\<lambda>(p, q). (p, q) \<in> {(1, 1), (2, 1), (3, 1)}) (neighbor_coords a b))"
    using r sub cells by (rule probe_count_pattern)
  from r have "a \<in> {0, 1, 2, 3, 4}" "b \<in> {0, 1, 2}" by (simp_all add: in_range_5_3 [OF d])
  then show ?thesis
    unfolding next_cell_def n cells [OF r]
    apply (elim insertE emptyE)
    apply (simp_all add: neighbor_coords_def life_rule_def)
    done
qed

lemma blinker_cells:
  "\<forall>a b. in_range C53 a b \<longrightarrow>
     get_cell C53 (grid blinker) a b = Inr ((a, b) \<in> {(1, 1), (2, 1), (3, 1)})"
proof (intro allI impI)
  fix a b :: int
  assume "in_range C53 a b"
  then have "a \<in> {0, 1, 2, 3, 4}" "b \<in> {0, 1, 2}" by (simp_all add: in_range_C53)
  then show "get_cell C53 (grid blinker) a b = Inr ((a, b) \<in> {(1, 1), (2, 1), (3, 1)})"
    apply (elim insertE emptyE)
    apply (simp_all add: get_cell_def cell_index_def c_int_def INT_MAX_def INT_MIN_def ebind_def
        C53_def C_def blinker_def)
    done
qed

lemma buffers_ok_block: "buffers_ok C53 block_grid"
  by (simp add: buffers_ok_def allocated_def C53_def C_def block_grid_def INT_MAX_def)

lemma block_grid_cells:
  "\<forall>a b. in_range C53 a b \<longrightarrow>
     get_cell C53 (grid block_grid) a b = Inr ((a, b) \<in> {(1, 1), (1 + 1, 1), (1, 1 + 1), (1 + 1, 1 + 1)})"
proof (intro allI impI)
  fix a b :: int
  assume "in_range C53 a b"
  then have "a \<in> {0, 1, 2, 3, 4}" "b \<in> {0, 1, 2}" by (simp_all add: in_range_C53)
  then show "get_cell C53 (grid block_grid) a b =
             Inr ((a, b) \<in> {(1, 1), (1 + 1, 1), (1, 1 + 1), (1 + 1, 1 + 1)})"
    apply (elim insertE emptyE)
    apply (simp_all add: get_cell_def cell_index_def c_int_def INT_MAX_def INT_MIN_def ebind_def
        C53_def C_def block_grid_def)
    done
qed

lemma update_screen_ok:
  assumes "allocated c (grid (bufs w))"
  shows "\<exists>w'. update_screen c w = Inr w' \<and> bufs w' = bufs w \<and> state w' = state w"
proof -
  let ?I = "\<lambda>(k :: int) (t :: world). bufs t = bufs w \<and> state t = state w"
  let ?w0 = "render [set_draw_color (fg_rgba w)] (clear_screen w)"
  from assms have wh: "0 \<le> width c" "0 \<le> height c" by (simp_all add: allocated_def)
  have inner: "\<exists>t'. for_loop 0 (height c) (\<lambda>j t.
                 ebind (get_cell c (grid (bufs t)) i j) (\<lambda>v.
                   Inr (if v then render [SDL_RenderDrawPoint i j] t else t))) t = Inr t' \<and>
               ?I (i + 1) t'"
    if i: "0 \<le> i" "i < width c" and t: "?I i t" for i t
  proof (rule for_loop_invariant [where I = "\<lambda>j. ?I (i + 1)", OF wh(2)])
    show "?I (i + 1) t" using t by simp
  next
    fix j and u :: world
    assume j: "0 \<le> j" "j < height c" and u: "?I (i + 1) u"
    have "in_range c i j" using i j by (simp add: in_range_def)
    from get_cell_in_range [OF this assms] u
    show "\<exists>t'. ebind (get_cell c (grid (bufs u)) i j) (\<lambda>v.
                 Inr (if v then render [SDL_RenderDrawPoint i j] u else u)) = Inr t' \<and>
               ?I (i + 1) t'"
      by (simp add: ebind_def render_def)
  qed
  have "\<exists>t. for_loop 0 (width c) (\<lambda>i.
              for_loop 0 (height c) (\<lambda>j t.
                ebind (get_cell c (grid (bufs t)) i j) (\<lambda>v.
                  Inr (if v then render [SDL_RenderDrawPoint i j] t else t)))) ?w0 = Inr t \<and>
            ?I (width c) t"
  proof (rule for_loop_invariant [where I = ?I, OF wh(1)])
    show "?I 0 ?w0" by (simp add: render_def clear_screen_def)
  qed (rule inner)
  then show ?thesis
    by (auto simp: update_screen_def ebind_def render_def)
qed

lemma main_loop_quit: "state w = QUIT \<Longrightarrow> main_loop c rnd fs q w = Inr (q, w)"
  by (cases fs) simp_all

lemma scale_u32_C53: "scale_u32 C53 = Inr 3"
  by (simp add: scale_u32_def C53_def C_def)


section \<open>Options\<close>

lemma set_config_step_bad:
  assumes "bad_option lc (opt, optarg)"
  shows "\<exists>c' msg. set_config lc ((opt, optarg) # rest) args c = Return_false c' msg \<and>
           msg \<in> error_messages"
proof -
  from assms consider
      "opt = CHR ''w''" "atoi lc optarg \<le> 0"
    | "opt = CHR ''h''" "atoi lc optarg \<le> 0"
    | "opt = CHR ''s''" "float_le_zero (atof lc optarg)"
    | "opt = CHR ''d''" "atoi lc optarg < 0"
    | "opt = CHR ''?''"
    | "opt = CHR '':''"
    unfolding bad_option_def by fast
  then show ?thesis
    by cases (simp_all add: error_messages_def)
qed

lemma set_config_step_good:
  assumes "\<not> bad_option lc (opt, optarg)"
  shows "\<exists>c0. set_config lc ((opt, optarg) # rest) args c = set_config lc rest args c0"
proof -
  consider "opt = CHR ''w''" | "opt = CHR ''h''" | "opt = CHR ''s''" | "opt = CHR ''d''"
    | "opt = CHR ''b''" | "opt = CHR ''f''" | "opt = CHR ''c''" | "opt = CHR '':''"
    | "opt = CHR ''?''"
    | "opt \<notin> {CHR ''w'', CHR ''h'', CHR ''s'', CHR ''d'', CHR ''b'', CHR ''f'', CHR ''c'',
               CHR '':'', CHR ''?''}"
    by fast
  then show ?thesis
  proof cases
    case 1
    with assms have "\<not> atoi lc optarg \<le> 0" by (simp add: bad_option_def)
    with 1 show ?thesis by (simp add: Let_def) blast
  next
    case 2
    with assms have "\<not> atoi lc optarg \<le> 0" by (simp add: bad_option_def)
    with 2 show ?thesis by (simp add: Let_def) blast
  next
    case 3
    with assms have "\<not> float_le_zero (atof lc optarg)" by (simp add: bad_option_def)
    with 3 show ?thesis by (simp add: Let_def) blast
  next
    case 4
    with assms have "\<not> atoi lc optarg < 0" by (simp add: bad_option_def)
    with 4 show ?thesis by (simp add: Let_def) blast
  next
    case 5
    then show ?thesis by simp blast
  next
    case 6
    then show ?thesis by simp blast
  next
    case 7
    then show ?thesis by simp blast
  next
    case 8
    with assms show ?thesis by (simp add: bad_option_def)
  next
    case 9
    with assms show ?thesis by (simp add: bad_option_def)
  next
    case 10
    then show ?thesis by simp blast
  qed
qed

lemma set_config_bad:
  assumes "\<exists>p \<in> set opts. bad_option lc p"
  shows "\<exists>c' msg. set_config lc opts args c = Return_false c' msg \<and> msg \<in> error_messages"
  using assms
proof (induction opts arbitrary: c)
  case Nil
  then show ?case by simp
next
  case (Cons p opts)
  obtain opt optarg where p: "p = (opt, optarg)" by (cases p)
  show ?case
  proof (cases "bad_option lc p")
    case True
    then show ?thesis unfolding p by (rule set_config_step_bad)
  next
    case False
    with Cons.prems have rest: "\<exists>p \<in> set opts. bad_option lc p" by simp
    from False obtain c0 where "set_config lc (p # opts) args c = set_config lc opts args c0"
      unfolding p using set_config_step_good by blast
    with Cons.IH [OF rest, of c0] show ?thesis by simp
  qed
qed

lemma bad_option_example:
  "\<exists>p \<in> set [(CHR ''d'', ''5''), (CHR ''w'', ''0'')]. bad_option libc_zero p"
  by (simp add: bad_option_def libc_zero_def)

section \<open>The buffers of every state main reaches\<close>

text \<open>
  The claims about the grid assume buffers as \<open>main\<close> allocates them
  (\<open>buffers_ok\<close>). The allocation establishes this and every operation of the main
  loop keeps it, so every state the program reaches without undefined behaviour has
  such buffers.
\<close>

lemma alloc_grids_ok:
  assumes "1 \<le> width c" "1 \<le> height c" "alloc_grids c = Inr b"
  shows "buffers_ok c b"
proof -
  have pos: "0 \<le> width c * height c" using assms(1,2) by simp
  show ?thesis
  proof (cases "width c * height c \<le> INT_MAX")
    case True
    with pos have "c_int (width c * height c) = Inr (width c * height c)"
      by (simp add: c_int_def INT_MIN_def)
    with assms pos True show ?thesis
      by (auto simp: alloc_grids_def ebind_def buffers_ok_def allocated_def)
  next
    case False
    then have "c_int (width c * height c) = Inl IntOverflow" by (simp add: c_int_def)
    with assms(3) show ?thesis by (simp add: alloc_grids_def ebind_def)
  qed
qed

lemma for_loop_preserves:
  assumes "for_loop i n body s = Inr t" "P s"
    and "\<And>k t t'. body k t = Inr t' \<Longrightarrow> P t \<Longrightarrow> P t'"
  shows "P t"
  using assms
proof (induction i n body s rule: for_loop.induct)
  case (1 i n body s)
  show ?case
  proof (cases "i < n")
    case True
    with "1.prems"(1) obtain s' where s': "body i s = Inr s'" "for_loop (i + 1) n body s' = Inr t"
      by (subst (asm) for_loop.simps) (auto simp: ebind_def split: sum.splits)
    from "1.prems"(3) [OF s'(1) "1.prems"(2)] have "P s'" .
    from "1.IH" [OF True s'(2) this "1.prems"(3)] show ?thesis .
  next
    case False
    with "1.prems"(1,2) show ?thesis by (subst (asm) for_loop.simps) simp
  qed
qed

lemma set_cell_length: "set_cell c arr x y v = Inr arr' \<Longrightarrow> length arr' = length arr"
  by (auto simp: set_cell_def ebind_def split: sum.splits)

lemma buffers_ok_grid:
  "buffers_ok c s \<Longrightarrow> length g = length (grid s) \<Longrightarrow> buffers_ok c (s\<lparr>grid := g\<rparr>)"
  by (simp add: buffers_ok_def allocated_def)

lemma paint_ok:
  assumes "paint c x y v col w = Inr w'" "buffers_ok c (bufs w)"
  shows "buffers_ok c (bufs w')"
  using assms
  by (auto simp: paint_def ebind_def draw_pixel_def render_def split: sum.splits
      dest!: set_cell_length intro: buffers_ok_grid)

lemma clear_grid_ok:
  assumes "clear_grid s = Inr s'" "buffers_ok c s"
  shows "buffers_ok c s'"
  using assms by (auto simp: clear_grid_def split: if_splits intro: buffers_ok_grid)

lemma update_screen_bufs:
  assumes "update_screen c w = Inr w'"
  shows "bufs w' = bufs w"
proof -
  let ?P = "\<lambda>t :: world. bufs t = bufs w"
  from assms obtain t where t: "for_loop 0 (width c) (\<lambda>i.
              for_loop 0 (height c) (\<lambda>j t.
                ebind (get_cell c (grid (bufs t)) i j) (\<lambda>v.
                  Inr (if v then render [SDL_RenderDrawPoint i j] t else t))))
            (render [set_draw_color (fg_rgba w)] (clear_screen w)) = Inr t"
    and w': "w' = render [SDL_RenderPresent, SDL_Delay (delay c)] t"
    by (auto simp: update_screen_def ebind_def split: sum.splits)
  have "?P t"
  proof (rule for_loop_preserves [where P = ?P, OF t])
    show "?P (render [set_draw_color (fg_rgba w)] (clear_screen w))"
      by (simp add: render_def clear_screen_def)
  next
    fix i and u u' :: world
    assume "for_loop 0 (height c) (\<lambda>j t.
                ebind (get_cell c (grid (bufs t)) i j) (\<lambda>v.
                  Inr (if v then render [SDL_RenderDrawPoint i j] t else t))) u = Inr u'"
      and "?P u"
    then show "?P u'"
      by (rule for_loop_preserves) (auto simp: ebind_def render_def split: sum.splits)
  qed
  with w' show ?thesis by (simp add: render_def)
qed

lemma fill_grid_ok:
  assumes "fill_grid c rnd w = Inr w'" "buffers_ok c (bufs w)"
  shows "buffers_ok c (bufs w')"
proof -
  let ?P = "\<lambda>t :: world. buffers_ok c (bufs t)"
  show ?thesis
  proof (rule for_loop_preserves [where P = ?P, OF assms [unfolded fill_grid_def]])
    fix i and u u' :: world
    assume "for_loop 0 (height c) (\<lambda>j t.
         ebind (set_cell c (grid (bufs t)) i j (rnd (rand_calls t) mod 2 \<noteq> 0)) (\<lambda>g.
           Inr (t\<lparr>bufs := (bufs t)\<lparr>grid := g\<rparr>, rand_calls := rand_calls t + 1\<rparr>))) u = Inr u'"
      and "?P u"
    then show "?P u'"
      by (rule for_loop_preserves)
        (auto simp: ebind_def split: sum.splits dest!: set_cell_length intro: buffers_ok_grid)
  qed
qed

lemma handle_event_ok:
  assumes "handle_event c rnd e w = Inr (f, w')" "buffers_ok c (bufs w)"
  shows "buffers_ok c (bufs w')"
proof (cases e)
  case SDL_QUIT
  with assms show ?thesis by auto
next
  case (SDL_KEYDOWN k)
  show ?thesis
  proof (cases k)
    case SDLK_c
    with assms SDL_KEYDOWN obtain b where b: "clear_grid (bufs w) = Inr b"
      and u: "update_screen c (w\<lparr>bufs := b\<rparr>) = Inr w'"
      by (auto simp: ebind_def split: sum.splits)
    from update_screen_bufs [OF u] clear_grid_ok [OF b assms(2)] show ?thesis by simp
  next
    case SDLK_r
    with assms SDL_KEYDOWN obtain w1 where w1: "fill_grid c rnd w = Inr w1"
      and u: "update_screen c w1 = Inr w'"
      by (auto simp: ebind_def split: sum.splits)
    from update_screen_bufs [OF u] fill_grid_ok [OF w1 assms(2)] show ?thesis by simp
  qed (use assms SDL_KEYDOWN in auto)
next
  case (SDL_MOUSEBUTTONDOWN b ex ey)
  with assms show ?thesis
    by (auto simp: ebind_def split: sum.splits if_splits dest: paint_ok)
next
  case (SDL_MOUSEBUTTONUP b)
  with assms show ?thesis by (auto simp: Let_def)
next
  case (SDL_MOUSEMOTION ex ey)
  with assms show ?thesis
    by (auto simp: ebind_def split: sum.splits if_splits dest: paint_ok)
next
  case (SDL_WINDOWEVENT e')
  with assms show ?thesis by (auto simp: Let_def)
next
  case SDL_OTHER_EVENT
  with assms show ?thesis by auto
qed

lemma handle_events_ok:
  assumes "handle_events c rnd es w = Inr (q, w')" "buffers_ok c (bufs w)"
  shows "buffers_ok c (bufs w')"
  using assms
proof (induction es arbitrary: w)
  case Nil
  then show ?case by simp
next
  case (Cons e es)
  from Cons.prems(1) obtain f w1 where h: "handle_event c rnd e w = Inr (f, w1)"
    and rest: "(case f of Return \<Rightarrow> Inr (es, w1) | Continue \<Rightarrow> handle_events c rnd es w1) = Inr (q, w')"
    by (auto simp: ebind_def split: sum.splits)
  from handle_event_ok [OF h Cons.prems(2)] have ok: "buffers_ok c (bufs w1)" .
  show ?case
  proof (cases f)
    case Continue
    with rest Cons.IH [OF _ ok] show ?thesis by simp
  next
    case Return
    with rest ok show ?thesis by simp
  qed
qed

lemma draw_cursor_pixel_bufs:
  assumes "draw_cursor_pixel c m w = Inr w'"
  shows "bufs w' = bufs w"
  using assms
  by (auto simp: draw_cursor_pixel_def ebind_def Let_def draw_pixel_def render_def
      split: sum.splits if_splits)

lemma main_loop_ok:
  assumes "main_loop c rnd fs q w = Inr (q', w')" "buffers_ok c (bufs w)"
  shows "buffers_ok c (bufs w')"
  using assms
proof (induction fs arbitrary: q w)
  case Nil
  then show ?case by simp
next
  case (Cons f fs)
  show ?case
  proof (cases "state w = QUIT")
    case True
    with Cons.prems show ?thesis by simp
  next
    case False
    with Cons.prems(1) obtain q1 w1 where
      h: "handle_events c rnd (q @ arrived f) w = Inr (q1, w1)"
      and rest: "(if state w1 = PAUSED
          then ebind (draw_cursor_pixel c (mouse f) w1) (\<lambda>w2. main_loop c rnd fs q1 w2)
          else ebind (update_grid c (bufs w1)) (\<lambda>b.
               ebind (update_screen c (w1\<lparr>bufs := b\<rparr>)) (\<lambda>w2. main_loop c rnd fs q1 w2)))
          = Inr (q', w')"
      by (auto simp: ebind_def split: sum.splits)
    from handle_events_ok [OF h Cons.prems(2)] have ok1: "buffers_ok c (bufs w1)" .
    show ?thesis
    proof (cases "state w1 = PAUSED")
      case True
      with rest obtain w2 where d: "draw_cursor_pixel c (mouse f) w1 = Inr w2"
        and r: "main_loop c rnd fs q1 w2 = Inr (q', w')"
        by (auto simp: ebind_def split: sum.splits)
      from draw_cursor_pixel_bufs [OF d] ok1 have "buffers_ok c (bufs w2)" by simp
      from Cons.IH [OF r this] show ?thesis .
    next
      case False
      with rest obtain b w2 where u: "update_grid c (bufs w1) = Inr b"
        and s: "update_screen c (w1\<lparr>bufs := b\<rparr>) = Inr w2"
        and r: "main_loop c rnd fs q1 w2 = Inr (q', w')"
        by (auto simp: ebind_def split: sum.splits)
      from update_grid_ok [OF ok1] u have "buffers_ok c b" by auto
      with update_screen_bufs [OF s] have "buffers_ok c (bufs w2)" by simp
      from Cons.IH [OF r this] show ?thesis .
    qed
  qed
qed

lemma set_config_dims:
  assumes "set_config lc opts args c = Return_true c'" "1 \<le> width c" "1 \<le> height c"
  shows "1 \<le> width c' \<and> 1 \<le> height c'"
  using assms
proof (induction opts arbitrary: c)
  case Nil
  then show ?case by (simp split: if_splits)
next
  case (Cons p opts)
  obtain opt optarg where p: "p = (opt, optarg)" by (cases p)
  consider "opt = CHR ''w''" | "opt = CHR ''h''" | "opt = CHR ''s''" | "opt = CHR ''d''"
    | "opt = CHR ''b''" | "opt = CHR ''f''" | "opt = CHR ''c''" | "opt = CHR '':''"
    | "opt = CHR ''?''"
    | "opt \<notin> {CHR ''w'', CHR ''h'', CHR ''s'', CHR ''d'', CHR ''b'', CHR ''f'', CHR ''c'',
               CHR '':'', CHR ''?''}"
    by fast
  then show ?case
  proof cases
    case 1
    with Cons.prems(1) have "set_config lc opts args (c\<lparr>width := atoi lc optarg\<rparr>) = Return_true c'"
      and "1 \<le> atoi lc optarg"
      by (simp_all add: p Let_def split: if_splits)
    with Cons.IH [of "c\<lparr>width := atoi lc optarg\<rparr>"] Cons.prems(3) show ?thesis by simp
  next
    case 2
    with Cons.prems(1) have "set_config lc opts args (c\<lparr>height := atoi lc optarg\<rparr>) = Return_true c'"
      and "1 \<le> atoi lc optarg"
      by (simp_all add: p Let_def split: if_splits)
    with Cons.IH [of "c\<lparr>height := atoi lc optarg\<rparr>"] Cons.prems(2) show ?thesis by simp
  next
    case 3
    with Cons.prems(1) have "set_config lc opts args (c\<lparr>scale := atof lc optarg\<rparr>) = Return_true c'"
      by (simp add: p Let_def split: if_splits)
    with Cons.IH [of "c\<lparr>scale := atof lc optarg\<rparr>"] Cons.prems(2,3) show ?thesis by simp
  next
    case 4
    with Cons.prems(1) have "set_config lc opts args (c\<lparr>delay := atoi lc optarg\<rparr>) = Return_true c'"
      by (simp add: p Let_def split: if_splits)
    with Cons.IH [of "c\<lparr>delay := atoi lc optarg\<rparr>"] Cons.prems(2,3) show ?thesis by simp
  next
    case 5
    with Cons.prems(1) have "set_config lc opts args (c\<lparr>bg_color := strtoul16 lc optarg\<rparr>) = Return_true c'"
      by (simp add: p)
    with Cons.IH [of "c\<lparr>bg_color := strtoul16 lc optarg\<rparr>"] Cons.prems(2,3) show ?thesis by simp
  next
    case 6
    with Cons.prems(1) have "set_config lc opts args (c\<lparr>fg_color := strtoul16 lc optarg\<rparr>) = Return_true c'"
      by (simp add: p)
    with Cons.IH [of "c\<lparr>fg_color := strtoul16 lc optarg\<rparr>"] Cons.prems(2,3) show ?thesis by simp
  next
    case 7
    with Cons.prems(1) have "set_config lc opts args (c\<lparr>cp_color := strtoul16 lc optarg\<rparr>) = Return_true c'"
      by (simp add: p)
    with Cons.IH [of "c\<lparr>cp_color := strtoul16 lc optarg\<rparr>"] Cons.prems(2,3) show ?thesis by simp
  next
    case 8
    with Cons.prems(1) show ?thesis by (simp add: p)
  next
    case 9
    with Cons.prems(1) show ?thesis by (simp add: p)
  next
    case 10
    with Cons.prems(1) have "set_config lc opts args c = Return_true c'"
      by (simp add: p)
    with Cons.IH [of c] Cons.prems(2,3) show ?thesis by simp
  qed
qed

lemma main_buffers_ok:
  assumes "sim (main lc sdl_error rnd opts args frames) = Some (Inr (q, w))"
  shows "\<exists>c. set_config lc opts args C = Return_true c \<and> buffers_ok c (bufs w)"
proof (cases "set_config lc opts args C")
  case (Return_true c)
  from set_config_dims [OF this] have d: "1 \<le> width c" "1 \<le> height c"
    by (simp_all add: C_def)
  from assms Return_true obtain b where b: "alloc_grids c = Inr b"
    and run: "main_loop c rnd frames [] (init_world c b) = Inr (q, w)"
    by (auto simp: main_def ebind_def split: option.splits sum.splits)
  from alloc_grids_ok [OF d b] have "buffers_ok c (bufs (init_world c b))"
    by (simp add: init_world_def)
  from main_loop_ok [OF run this] Return_true show ?thesis by simp
next
  case (Return_false c msg)
  with assms show ?thesis by (simp add: main_def)
next
  case (Exit_0 out)
  with assms show ?thesis by (simp add: main_def)
qed

section \<open>The run state\<close>

lemma run_state_initial: "state (init_world c b) = RUNNING"
  by (simp add: init_world_def)

lemma pause_toggle:
  "handle_event c rnd (SDL_KEYDOWN SDLK_SPACE) w =
     Inr (Continue, w\<lparr>state := (if state w = RUNNING then PAUSED else RUNNING)\<rparr>)"
  by simp

lemma pause_round_trip:
  assumes "state w = RUNNING"
  shows "\<exists>w1 w2. handle_event c rnd (SDL_KEYDOWN SDLK_SPACE) w = Inr (Continue, w1) \<and>
           state w1 = PAUSED \<and>
           handle_event c rnd (SDL_KEYDOWN SDLK_SPACE) w1 = Inr (Continue, w2) \<and>
           state w2 = RUNNING"
  using assms by simp

lemma quit_signal:
  "handle_events c rnd (SDL_QUIT # es) w = Inr (es, w\<lparr>state := QUIT\<rparr>)"
  "handle_events c rnd (SDL_KEYDOWN SDLK_ESCAPE # es) w = Inr (es, w\<lparr>state := QUIT\<rparr>)"
  by (simp_all add: ebind_def)

section \<open>The ghost cursor\<close>







section \<open>The claims\<close>

text \<open>
  Claim C1. On buffers as \<open>main\<close> allocates them, \<open>update_grid\<close> returns, and the
  value it leaves at every in-range \<open>(x, y)\<close> follows from the value \<open>a\<close> the cell had
  before the step and the number of alive cells in its clipped Moore neighbourhood before
  the step: an alive cell with fewer than 2 or more than 3 alive neighbours is dead, an
  alive cell with 2 or 3 stays alive, a dead cell with exactly 3 becomes alive, every other
  dead cell stays dead. Both are read from the grid as it was before the step, so no
  cell's new value depends on another cell's new value.
\<close>

theorem update_grid_rule:
  assumes "buffers_ok c s" "in_range c x y"
  shows "\<exists>s' a a'. update_grid c s = Inr s' \<and>
           get_cell c (grid s) x y = Inr a \<and> get_cell c (grid s') x y = Inr a' \<and>
           (a \<and> (alive_neighbors c (grid s) x y < 2 \<or> alive_neighbors c (grid s) x y > 3)
              \<longrightarrow> \<not> a') \<and>
           (a \<and> (alive_neighbors c (grid s) x y = 2 \<or> alive_neighbors c (grid s) x y = 3)
              \<longrightarrow> a') \<and>
           (\<not> a \<and> alive_neighbors c (grid s) x y = 3 \<longrightarrow> a') \<and>
           (\<not> a \<and> alive_neighbors c (grid s) x y \<noteq> 3 \<longrightarrow> \<not> a')"
proof -
  from assms(1) have g: "allocated c (grid s)" by (simp add: buffers_ok_def)
  from update_grid_ok [OF assms(1)] obtain s' where s': "update_grid c s = Inr s'"
    and ok: "buffers_ok c s'"
    and v: "cell c (grid s') x y = next_cell c (grid s) x y"
    using assms(2) by blast
  from ok have g': "allocated c (grid s')" by (simp add: buffers_ok_def)
  note n = probe_count_card [OF g assms(2)]
  have "get_cell c (grid s) x y = Inr (cell c (grid s) x y)"
    using assms(2) g by (rule get_cell_in_range)
  moreover have "get_cell c (grid s') x y = Inr (next_cell c (grid s) x y)"
    using get_cell_in_range [OF assms(2) g'] v by simp
  ultimately show ?thesis
    using s' by (simp add: next_cell_def life_rule_def n)
qed

theorem update_grid_rule_witness:
  "buffers_ok C53 blinker \<and> in_range C53 2 0 \<and>
   (\<exists>s' a a'. update_grid C53 blinker = Inr s' \<and>
      get_cell C53 (grid blinker) 2 0 = Inr a \<and> get_cell C53 (grid s') 2 0 = Inr a' \<and>
      (a \<and> (alive_neighbors C53 (grid blinker) 2 0 < 2 \<or> alive_neighbors C53 (grid blinker) 2 0 > 3)
         \<longrightarrow> \<not> a') \<and>
      (a \<and> (alive_neighbors C53 (grid blinker) 2 0 = 2 \<or> alive_neighbors C53 (grid blinker) 2 0 = 3)
         \<longrightarrow> a') \<and>
      (\<not> a \<and> alive_neighbors C53 (grid blinker) 2 0 = 3 \<longrightarrow> a') \<and>
      (\<not> a \<and> alive_neighbors C53 (grid blinker) 2 0 \<noteq> 3 \<longrightarrow> \<not> a'))"
proof -
  have r: "in_range C53 2 0" by (simp add: in_range_C53)
  from buffers_ok_blinker r update_grid_rule [OF buffers_ok_blinker r]
  show ?thesis by (intro conjI)
qed

text \<open>
  Claim C2. For an allocated grid and an in-range \<open>(x, y)\<close>, the neighbour count of
  \<open>is_alive\<close> returns; \<open>nb\<close> lists the cells it reads, and all later reads of
  \<open>is_alive\<close> are of \<open>(x, y)\<close> itself, whose flat index is below
  \<open>width * height\<close> too. Every cell of \<open>nb\<close> lies in
  \<open>[0, width) \<times> [0, height)\<close>, its flat index is below \<open>width * height\<close>, and it is a
  cell other than \<open>(x, y)\<close> at most one column and one row away: none is reached by
  wrapping to the opposite edge. No cell is read twice, and the count is the number of
  alive cells among them.
\<close>

theorem is_alive_reads:
  assumes "allocated c g" "in_range c x y"
  shows "\<exists>n nb alive k.
           count_neighbors c g (neighbor_probes c x y) (0, []) = Inr (n, nb) \<and>
           is_alive c g x y = Inr (alive, nb @ replicate k (x, y)) \<and>
           distinct nb \<and>
           n = int (length (filter (\<lambda>(a, b). get_cell c g a b = Inr True) nb)) \<and>
           (\<forall>(a, b) \<in> set nb.
              in_range c a b \<and> (a, b) \<noteq> (x, y) \<and> \<bar>a - x\<bar> \<le> 1 \<and> \<bar>b - y\<bar> \<le> 1 \<and>
              (\<exists>i. cell_index c g a b = Inr i \<and> int i = a * height c + b \<and>
                   i < nat (width c * height c))) \<and>
           (\<exists>i. cell_index c g x y = Inr i \<and> int i = x * height c + y \<and>
                i < nat (width c * height c))"
proof -
  let ?nb = "counted c x y"
  note cn = count_neighbors_probes [OF assms]
  have mem: "in_range c a b \<and> (a, b) \<noteq> (x, y) \<and> \<bar>a - x\<bar> \<le> 1 \<and> \<bar>b - y\<bar> \<le> 1"
    if "(a, b) \<in> set ?nb" for a b
    using that mem_moore [OF assms(2), of a b] by (simp add: moore_clipped_def)
  have idx: "\<exists>i. cell_index c g a b = Inr i \<and> int i = a * height c + b \<and>
                 i < nat (width c * height c)"
    if "(a, b) \<in> set ?nb" for a b
  proof -
    from mem [OF that] have r: "in_range c a b" by simp
    show ?thesis
      using cell_index_in_range [OF r assms(1)] flat_bounds [OF r] by simp
  qed
  have cnt: "int (probe_count c g x y) =
             int (length (filter (\<lambda>(a, b). get_cell c g a b = Inr True) ?nb))"
    by (simp add: probe_count_counted counted_alive [OF assms])
  show ?thesis
  proof (intro exI conjI)
    show "count_neighbors c g (neighbor_probes c x y) (0, []) =
          Inr (int (probe_count c g x y), ?nb)"
      by (rule cn)
    show "is_alive c g x y =
          Inr (life_rule (cell c g x y) (probe_count c g x y),
               ?nb @ replicate (self_reads (cell c g x y) (probe_count c g x y)) (x, y))"
      by (rule is_alive_in_range [OF assms(2,1)])
    show "distinct ?nb" by (rule distinct_counted)
    show "int (probe_count c g x y) =
          int (length (filter (\<lambda>(a, b). get_cell c g a b = Inr True) ?nb))"
      by (rule cnt)
    show "\<forall>(a, b) \<in> set ?nb.
            in_range c a b \<and> (a, b) \<noteq> (x, y) \<and> \<bar>a - x\<bar> \<le> 1 \<and> \<bar>b - y\<bar> \<le> 1 \<and>
            (\<exists>i. cell_index c g a b = Inr i \<and> int i = a * height c + b \<and>
                 i < nat (width c * height c))"
      using mem idx by blast
    show "cell_index c g x y = Inr (nat (x * height c + y))"
      by (rule cell_index_in_range [OF assms(2,1)])
    show "int (nat (x * height c + y)) = x * height c + y"
      using flat_bounds [OF assms(2)] by simp
    show "nat (x * height c + y) < nat (width c * height c)"
      using flat_bounds [OF assms(2)] by simp
  qed
qed

theorem is_alive_reads_witness:
  "allocated C53 (grid blinker) \<and> in_range C53 0 2 \<and>
   (\<exists>n nb alive k.
      count_neighbors C53 (grid blinker) (neighbor_probes C53 0 2) (0, []) = Inr (n, nb) \<and>
      is_alive C53 (grid blinker) 0 2 = Inr (alive, nb @ replicate k (0, 2)) \<and>
      distinct nb \<and>
      n = int (length (filter (\<lambda>(a, b). get_cell C53 (grid blinker) a b = Inr True) nb)) \<and>
      (\<forall>(a, b) \<in> set nb.
         in_range C53 a b \<and> (a, b) \<noteq> (0, 2) \<and> \<bar>a - 0\<bar> \<le> 1 \<and> \<bar>b - 2\<bar> \<le> 1 \<and>
         (\<exists>i. cell_index C53 (grid blinker) a b = Inr i \<and> int i = a * height C53 + b \<and>
              i < nat (width C53 * height C53))) \<and>
      (\<exists>i. cell_index C53 (grid blinker) 0 2 = Inr i \<and> int i = 0 * height C53 + 2 \<and>
           i < nat (width C53 * height C53)))"
proof -
  have r: "in_range C53 0 2" by (simp add: in_range_C53)
  from allocated_blinker r is_alive_reads [OF allocated_blinker r]
  show ?thesis by (intro conjI)
qed

text \<open>
  Claim C3, amended. On a grid of width 5 and height 3 in which exactly the cells
  \<open>(1, 1)\<close>, \<open>(2, 1)\<close>, \<open>(3, 1)\<close> are alive, one \<open>update_grid\<close> yields a grid in
  which exactly the cells \<open>(2, 0)\<close>, \<open>(2, 1)\<close>, \<open>(2, 2)\<close> are alive: of the original
  three, the two ends \<open>(1, 1)\<close> and \<open>(3, 1)\<close> are dead and the centre \<open>(2, 1)\<close>
  stays alive.
\<close>

theorem blinker_step:
  assumes "width c = 5" "height c = 3" "buffers_ok c s"
    and "\<forall>a b. in_range c a b \<longrightarrow>
           get_cell c (grid s) a b = Inr ((a, b) \<in> {(1, 1), (2, 1), (3, 1)})"
  shows "\<exists>s'. update_grid c s = Inr s' \<and>
           (\<forall>a b. in_range c a b \<longrightarrow>
              get_cell c (grid s') a b = Inr ((a, b) \<in> {(2, 0), (2, 1), (2, 2)})) \<and>
           get_cell c (grid s') 1 1 = Inr False \<and> get_cell c (grid s') 3 1 = Inr False \<and>
           get_cell c (grid s') 2 1 = Inr True"
proof -
  from assms(3) have g: "allocated c (grid s)" by (simp add: buffers_ok_def)
  have cells: "cell c (grid s) p q \<longleftrightarrow> (p, q) \<in> {(1, 1), (2, 1), (3, 1)}" if "in_range c p q" for p q
    using assms(4) that get_cell_in_range [OF that g] by auto
  from update_grid_ok [OF assms(3)] obtain s' where s': "update_grid c s = Inr s'"
    and ok: "buffers_ok c s'"
    and v: "\<And>p q. in_range c p q \<Longrightarrow> cell c (grid s') p q = next_cell c (grid s) p q"
    by blast
  from ok have g': "allocated c (grid s')" by (simp add: buffers_ok_def)
  have after: "get_cell c (grid s') a b = Inr ((a, b) \<in> {(2, 0), (2, 1), (2, 2)})"
    if "in_range c a b" for a b
    using get_cell_in_range [OF that g'] v [OF that]
      blinker_next_cell [OF assms(1,2) that cells] by simp
  have "in_range c 1 1" "in_range c 3 1" "in_range c 2 1"
    by (simp_all add: in_range_5_3 [OF assms(1,2)])
  from this [THEN after] s' after show ?thesis by simp
qed

theorem blinker_step_witness:
  "width C53 = 5 \<and> height C53 = 3 \<and> buffers_ok C53 blinker \<and>
   (\<exists>s'. update_grid C53 blinker = Inr s' \<and>
      (\<forall>a b. in_range C53 a b \<longrightarrow>
         get_cell C53 (grid s') a b = Inr ((a, b) \<in> {(2, 0), (2, 1), (2, 2)})) \<and>
      get_cell C53 (grid s') 1 1 = Inr False \<and> get_cell C53 (grid s') 3 1 = Inr False \<and>
      get_cell C53 (grid s') 2 1 = Inr True)"
proof -
  have d: "width C53 = 5" "height C53 = 3" by (simp_all add: C53_def)
  from d buffers_ok_blinker blinker_step [OF d buffers_ok_blinker blinker_cells]
  show ?thesis by (intro conjI)
qed

text \<open>
  The claim as first stated also has all three original cells dead after the step. The
  centre \<open>(2, 1)\<close> is one of them; it has two alive neighbours and stays alive.
\<close>

theorem blinker_centre_alive:
  "update_grid C53 blinker = Inr blinker_next \<and>
   get_cell C53 (grid blinker) 2 1 = Inr True \<and>
   get_cell C53 (grid blinker_next) 2 1 = Inr True"
  by (simp add: blinker_eval) code_simp

text \<open>
  Claim C4. If the alive cells of the grid are exactly the block
  \<open>(x, y)\<close>, \<open>(x + 1, y)\<close>, \<open>(x, y + 1)\<close>, \<open>(x + 1, y + 1)\<close>, all four inside
  \<open>[0, width) \<times> [0, height)\<close>, then any number of applications of \<open>update_grid\<close>
  returns and leaves the grid as it was.
\<close>

theorem block_stable:
  assumes "buffers_ok c s"
    and "0 \<le> x" "x + 1 < width c" "0 \<le> y" "y + 1 < height c"
    and "\<forall>a b. in_range c a b \<longrightarrow>
           get_cell c (grid s) a b = Inr ((a, b) \<in> {(x, y), (x + 1, y), (x, y + 1), (x + 1, y + 1)})"
  shows "\<exists>s'. steps n c s = Inr s' \<and> grid s' = grid s"
  using assms(1,6)
proof (induction n arbitrary: s)
  case 0
  show ?case by simp
next
  case (Suc n)
  from Suc.prems(1) have g: "allocated c (grid s)" by (simp add: buffers_ok_def)
  have cells: "cell c (grid s) p q \<longleftrightarrow> in_block x y p q" if "in_range c p q" for p q
    using Suc.prems(2) that get_cell_in_range [OF that g] by (auto simp: in_block_def)
  from update_grid_ok [OF Suc.prems(1)] obtain t where t: "update_grid c s = Inr t"
    and ok: "buffers_ok c t"
    and v: "\<And>p q. in_range c p q \<Longrightarrow> cell c (grid t) p q = next_cell c (grid s) p q"
    by blast
  from ok have g': "allocated c (grid t)" by (simp add: buffers_ok_def)
  have same: "grid t = grid s"
  proof (rule grid_eqI [OF g' g])
    fix p q assume r: "in_range c p q"
    show "cell c (grid t) p q = cell c (grid s) p q"
      using v [OF r] block_next [OF r assms(2-5) cells] cells [OF r] by simp
  qed
  from Suc.IH [OF ok] Suc.prems(2) obtain s' where "steps n c t = Inr s'" "grid s' = grid t"
    unfolding same by blast
  then show ?case using t same by (simp add: ebind_def)
qed

theorem block_stable_witness:
  "buffers_ok C53 block_grid \<and> (0::int) \<le> 1 \<and> 1 + 1 < width C53 \<and> 1 + 1 < height C53 \<and>
   (\<exists>s'. steps 7 C53 block_grid = Inr s' \<and> grid s' = grid block_grid)"
proof -
  have z: "(0::int) \<le> 1" by simp
  have w: "1 + 1 < width C53" and h: "1 + 1 < height C53" by (simp_all add: C53_def)
  from buffers_ok_block z w h block_stable [OF buffers_ok_block z w z h block_grid_cells, of 7]
  show ?thesis by (intro conjI)
qed

text \<open>
  Claim C5 says that once the run state is \<open>QUIT\<close> no simulation step occurs. The
  loop of \<open>main\<close> tests the state only at its head: after \<open>handle_events\<close> has set
  \<open>QUIT\<close> and returned, the state is not \<open>PAUSED\<close>, and the body goes on to
  \<open>update_grid\<close> and \<open>update_screen\<close> once more. Here the program is paused over
  the horizontal blinker and receives an escape key: it ends in \<open>QUIT\<close> with the grid
  advanced by one generation.
\<close>

theorem quit_still_steps:
  "\<exists>w'. main_loop C53 rnd [\<lparr>arrived = [SDL_KEYDOWN SDLK_ESCAPE], mouse = (0, 0)\<rparr>] [] paused_blinker
           = Inr ([], w') \<and>
         state w' = QUIT \<and> grid (bufs paused_blinker) = grid blinker \<and>
         grid (bufs w') = grid blinker_next \<and> grid blinker_next \<noteq> grid blinker"
proof -
  let ?w1 = "paused_blinker\<lparr>state := QUIT, bufs := blinker_next\<rparr>"
  have st: "state paused_blinker = PAUSED" and b: "bufs paused_blinker = blinker"
    by (simp_all add: paused_blinker_def init_world_def)
  have "allocated C53 (grid (bufs ?w1))"
    by (simp add: allocated_def C53_def C_def blinker_next_def INT_MAX_def)
  from update_screen_ok [OF this] obtain w' where
    w': "update_screen C53 ?w1 = Inr w'" "bufs w' = blinker_next" "state w' = QUIT"
    by auto
  have "main_loop C53 rnd [\<lparr>arrived = [SDL_KEYDOWN SDLK_ESCAPE], mouse = (0, 0)\<rparr>] [] paused_blinker
          = Inr ([], w')"
    by (simp add: st b blinker_eval w' ebind_def)
  moreover have "grid blinker_next \<noteq> grid blinker"
    by (simp add: blinker_def blinker_next_def)
  ultimately show ?thesis
    using w' b by auto
qed




text \<open>
  Claim C7. A mouse-motion event handled while \<open>draw_flag\<close> and \<open>erase_flag\<close>
  are both false leaves the whole state as it was, the grid and the renderer calls
  included: whenever \<open>handle_event\<close> returns, and it does return when the scale cast to
  \<open>uint32_t\<close> is not zero.
\<close>

theorem motion_idle:
  assumes "\<not> draw_flag w" "\<not> erase_flag w"
  shows "(\<forall>d. scale_u32 c = Inr d \<and> d \<noteq> 0 \<longrightarrow>
            handle_event c rnd (SDL_MOUSEMOTION ex ey) w = Inr (Continue, w)) \<and>
         (\<forall>f w'. handle_event c rnd (SDL_MOUSEMOTION ex ey) w = Inr (f, w') \<longrightarrow> w' = w)"
  using assms
  by (auto simp: to_cell_def ebind_def split: sum.splits if_splits)

theorem motion_idle_witness:
  "\<not> draw_flag (init_world C53 blinker) \<and> \<not> erase_flag (init_world C53 blinker) \<and>
   scale_u32 C53 = Inr 3 \<and>
   handle_event C53 (\<lambda>k. 0) (SDL_MOUSEMOTION 7 4) (init_world C53 blinker) =
     Inr (Continue, init_world C53 blinker)"
proof -
  have h: "\<not> draw_flag (init_world C53 blinker)" "\<not> erase_flag (init_world C53 blinker)"
    by (simp_all add: init_world_def)
  have nz: "(3 :: u32) \<noteq> 0" by simp
  from motion_idle [OF h, of C53 "\<lambda>k. 0" 7 4] scale_u32_C53 nz
  have "handle_event C53 (\<lambda>k. 0) (SDL_MOUSEMOTION 7 4) (init_world C53 blinker) =
          Inr (Continue, init_world C53 blinker)"
    by blast
  with h scale_u32_C53 show ?thesis by (intro conjI)
qed

text \<open>
  Claim C8. On buffers as \<open>main\<close> allocates them, \<open>clear_grid\<close> returns, and
  \<open>get_cell\<close> then returns false at every in-range coordinate.
\<close>

theorem clear_grid_dead:
  assumes "buffers_ok c s" "in_range c x y"
  shows "\<exists>s'. clear_grid s = Inr s' \<and> get_cell c (grid s') x y = Inr False"
proof -
  from assms(1) have g: "allocated c (grid s)" and sz: "grid_size s = nat (width c * height c)"
    by (simp_all add: buffers_ok_def)
  then have len: "length (grid s) = grid_size s" by (simp add: allocated_def)
  let ?s = "s\<lparr>grid := replicate (grid_size s) False\<rparr>"
  have run: "clear_grid s = Inr ?s" by (simp add: clear_grid_def len)
  have a: "allocated c (grid ?s)" using g sz by (simp add: allocated_def)
  have "nat (x * height c + y) < grid_size s"
    using flat_bounds [OF assms(2)] sz by simp
  then have "cell c (grid ?s) x y = False" by (simp add: cell_def)
  with run get_cell_in_range [OF assms(2) a] show ?thesis by simp
qed

theorem clear_grid_dead_witness:
  "buffers_ok C53 blinker \<and> in_range C53 2 1 \<and>
   (\<exists>s'. clear_grid blinker = Inr s' \<and> get_cell C53 (grid s') 2 1 = Inr False)"
proof -
  have r: "in_range C53 2 1" by (simp add: in_range_C53)
  from clear_grid_dead [OF buffers_ok_blinker r] buffers_ok_blinker r
  show ?thesis by simp
qed

text \<open>
  Claim C9. If \<open>getopt\<close> reports a malformed option anywhere on the command line,
  \<open>set_config\<close> returns false after writing one of its error messages, and \<open>main\<close>
  exits with \<open>EXIT_FAILURE\<close>, which is not zero, with that message on \<open>stderr\<close> and
  before the buffers exist.
\<close>

theorem bad_option_fatal:
  assumes "\<exists>p \<in> set opts. bad_option lc p"
  shows "\<exists>c' msg. set_config lc opts args C = Return_false c' msg \<and> msg \<in> error_messages \<and>
           main lc sdl_error rnd opts args frames =
             \<lparr>exit_code = Some EXIT_FAILURE, stderr = [msg], stdout = [], sim = None\<rparr> \<and>
           EXIT_FAILURE \<noteq> 0"
proof -
  from set_config_bad [OF assms] obtain c' msg
    where r: "set_config lc opts args C = Return_false c' msg" "msg \<in> error_messages"
    by blast
  have "main lc sdl_error rnd opts args frames =
          \<lparr>exit_code = Some EXIT_FAILURE, stderr = [msg], stdout = [], sim = None\<rparr>"
    unfolding main_def r by simp
  moreover have "EXIT_FAILURE \<noteq> 0" by (simp add: EXIT_FAILURE_def)
  ultimately show ?thesis using r by blast
qed

theorem bad_option_fatal_witness:
  "(\<exists>p \<in> set [(CHR ''d'', ''5''), (CHR ''w'', ''0'')]. bad_option libc_zero p) \<and>
   (\<exists>c' msg. set_config libc_zero [(CHR ''d'', ''5''), (CHR ''w'', ''0'')] [] C = Return_false c' msg \<and>
      msg \<in> error_messages \<and>
      main libc_zero None (\<lambda>k. 0) [(CHR ''d'', ''5''), (CHR ''w'', ''0'')] [] [] =
        \<lparr>exit_code = Some EXIT_FAILURE, stderr = [msg], stdout = [], sim = None\<rparr> \<and>
      EXIT_FAILURE \<noteq> 0)"
  using bad_option_example bad_option_fatal [OF bad_option_example, of "[]" None "\<lambda>k. 0" "[]"]
  by (intro conjI)

text \<open>
  Claim C10. In an allocated buffer, \<open>set_cell\<close> at an in-range \<open>(x, y)\<close> returns;
  \<open>get_cell\<close> then returns the value written at \<open>(x, y)\<close> and, at every other
  in-range \<open>(x', y')\<close>, the value it returned before.
\<close>

theorem set_get_cell:
  assumes "allocated c arr" "in_range c x y" "in_range c x' y'"
  shows "\<exists>arr'. set_cell c arr x y v = Inr arr' \<and> get_cell c arr' x y = Inr v \<and>
           ((x', y') \<noteq> (x, y) \<longrightarrow> get_cell c arr' x' y' = get_cell c arr x' y')"
proof -
  let ?arr = "arr[nat (x * height c + y) := v]"
  have a: "allocated c ?arr" using assms(1) by (simp add: allocated_def)
  have "set_cell c arr x y v = Inr ?arr"
    using assms(2,1) by (rule set_cell_in_range)
  moreover have "get_cell c ?arr x y = Inr v"
    using get_cell_in_range [OF assms(2) a] cell_update [OF assms(2,2,1)] by simp
  moreover have "get_cell c ?arr x' y' = get_cell c arr x' y'" if "(x', y') \<noteq> (x, y)"
    using that get_cell_in_range [OF assms(3) a] get_cell_in_range [OF assms(3,1)]
      cell_update [OF assms(2,3,1)] by auto
  ultimately show ?thesis by blast
qed

theorem set_get_cell_witness:
  "allocated C53 (grid blinker) \<and> in_range C53 4 2 \<and> in_range C53 1 1 \<and>
   (\<exists>arr'. set_cell C53 (grid blinker) 4 2 True = Inr arr' \<and> get_cell C53 arr' 4 2 = Inr True \<and>
      ((1 :: int, 1 :: int) \<noteq> (4, 2) \<longrightarrow>
         get_cell C53 arr' 1 1 = get_cell C53 (grid blinker) 1 1))"
proof -
  have r: "in_range C53 4 2" "in_range C53 1 1" by (simp_all add: in_range_C53)
  from allocated_blinker r set_get_cell [OF allocated_blinker r, of True]
  show ?thesis by (intro conjI)
qed

end
